theory Spec2Isabelle
  imports Complex_Main "HOL-Library.Word"
begin

unbundle bit_operations_syntax

section \<open>The WASAPI audio capture ring (audiocapture\_wasapi.cpp)\<close>

text \<open>
  The class \<open>AudioCapture_WASAPI\<close> keeps a ring of bytes with two running cursors and a
  time anchor. The capture thread appends hardware packets to it; the consumer calls
  \<open>Read\<close>, \<open>JumpToTime\<close> and \<open>Flush\<close>.

  Modelling decisions.
  \<^item> \<open>uint\<close> is a 32-bit word: \<open>+\<close>, \<open>-\<close> and \<open>*\<close> wrap around, \<open>mod\<close> and the
    comparisons are unsigned, \<open>sint\<close> is the conversion to \<open>int\<close>.
  \<^item> A \<open>double\<close> is the real number that it represents, and each floating point
    operation of the code rounds its exact result to the nearest \<open>double\<close>, halfway cases
    to the even significand (\<open>fl\<close>, the default rounding of IEEE 754 binary64, which the
    SSE2 code of an x64 build applies to every single operation). Infinities and NaN are
    not values of the model.
  \<^item> The ring storage is a list of bytes whose length is the allocated size. A
    \<open>memcpy\<close> or \<open>memset\<close> that leaves the storage is undefined behaviour in C++;
    in the model it is the error \<open>OutOfBounds\<close>. The other undefined operations of the
    code (\<open>%\<close> by zero, a \<open>double\<close> that does not fit the \<open>int\<close> it is cast to, an
    \<open>int\<close> product that overflows) are errors as well.
  \<^item> The lock makes the bookkeeping of the four operations mutually exclusive; one call
    of the model is one such operation, run to its end. The capture thread copies the
    packet after it has released the lock (line 96): \<open>Append\<close> is the bookkeeping
    followed at once by the copy, and \<open>Append_locked\<close> is the state in between, which
    a call of the consumer meets when it takes the lock before the copy is done.
  \<^item> The calls of the audio subsystem (device activation, the keep-alive playback client,
    the capture client, the enumeration of devices) are outside the model: the constructor
    starts from the format that \<open>GetMixFormat\<close> returns, and the capture thread from
    the packet that \<open>GetBuffer\<close> returns.
\<close>

type_synonym uint = "32 word"
type_synonym uint8 = "8 word"
type_synonym uint64 = "64 word"
type_synonym WORD = "16 word"
type_synonym DWORD = "32 word"
type_synonym GUID = "128 word"
type_synonym double = real

datatype error =
    AssertionFailed
  | OutOfBounds
  | DivisionByZero
  | IntConversionUndefined
  | SignedOverflow

subsection \<open>Constants and helpers that the file takes from its headers\<close>

text \<open>\<open>static constexpr int REFPERSEC = 10000000\<close>, line 23.\<close>

definition REFPERSEC :: int where
  "REFPERSEC = 10000000"

text \<open>
  Modelled from the spec: the Windows SDK constants \<open>WAVE_FORMAT_EXTENSIBLE\<close>,
  \<open>KSDATAFORMAT_SUBTYPE_IEEE_FLOAT\<close> and \<open>AUDCLNT_BUFFERFLAGS_SILENT\<close> are not
  declared in the file. They stand for the float encoding that the "AudioFormat" of the
  specification is fixed to and for the silence flag of a "Silent packet"; the values are
  those of the SDK headers (mmreg.h, ksmedia.h, audioclient.h). \<open>WAVE_FORMAT_IEEE_FLOAT\<close>
  is the SDK's format tag of a float format described without the extensible header.
\<close>

definition WAVE_FORMAT_EXTENSIBLE :: WORD where
  "WAVE_FORMAT_EXTENSIBLE = 0xFFFE"

definition WAVE_FORMAT_IEEE_FLOAT :: WORD where
  "WAVE_FORMAT_IEEE_FLOAT = 0x0003"

definition KSDATAFORMAT_SUBTYPE_IEEE_FLOAT :: GUID where
  "KSDATAFORMAT_SUBTYPE_IEEE_FLOAT = 0x0000000300000010800000AA00389B71"

definition KSDATAFORMAT_SUBTYPE_PCM :: GUID where
  "KSDATAFORMAT_SUBTYPE_PCM = 0x0000000100000010800000AA00389B71"

definition AUDCLNT_BUFFERFLAGS_SILENT :: DWORD where
  "AUDCLNT_BUFFERFLAGS_SILENT = 0x2"

text \<open>
  Modelled from the spec: \<open>Min\<close> and \<open>Clamp\<close> come from system.h, which is not part of
  the sources. \<open>Min\<close> is the smaller of its two arguments ("bytesReturned = min(maxBytes,
  writeCursor - readCursor)"), and \<open>Clamp v lo hi\<close> "clamps targetOffset into
  [readCursor, writeCursor] ... the result is pinned to the nearest available bound".
\<close>

definition Min_uint :: "uint \<Rightarrow> uint \<Rightarrow> uint" where
  "Min_uint a b = (if a < b then a else b)"

definition Clamp :: "int \<Rightarrow> int \<Rightarrow> int \<Rightarrow> int" where
  "Clamp v lo hi = (if v < lo then lo else if hi < v then hi else v)"

text \<open>
  \<open>round\<close> of the C library rounds a \<open>double\<close> to the nearest integer, halfway cases
  away from zero (HOL's \<open>round\<close> rounds them up); the result is exact.
\<close>

definition c_round :: "double \<Rightarrow> int" where
  "c_round x = (if 0 \<le> x then \<lfloor>x + 1 / 2\<rfloor> else - \<lfloor>- x + 1 / 2\<rfloor>)"

text \<open>
  \<open>memset (Ring + off, 0, n)\<close>, \<open>memcpy (Ring + off, src, n)\<close> and
  \<open>memcpy (dest, Ring + off, n)\<close> on a storage of \<open>length ring\<close> bytes: the bytes
  \<open>off, ..., off + n - 1\<close> of the storage are accessed, and \<open>n\<close> bytes of the source.
\<close>

definition memset_ring :: "uint8 list \<Rightarrow> nat \<Rightarrow> nat \<Rightarrow> error + uint8 list" where
  "memset_ring ring off n =
     (if off + n \<le> length ring
      then Inr (take off ring @ replicate n 0 @ drop (off + n) ring)
      else Inl OutOfBounds)"

definition memcpy_to_ring :: "uint8 list \<Rightarrow> nat \<Rightarrow> uint8 list \<Rightarrow> nat \<Rightarrow> error + uint8 list" where
  "memcpy_to_ring ring off src n =
     (if off + n \<le> length ring \<and> n \<le> length src
      then Inr (take off ring @ take n src @ drop (off + n) ring)
      else Inl OutOfBounds)"

definition memcpy_from_ring :: "uint8 list \<Rightarrow> nat \<Rightarrow> nat \<Rightarrow> error + uint8 list" where
  "memcpy_from_ring ring off n =
     (if off + n \<le> length ring then Inr (take n (drop off ring)) else Inl OutOfBounds)"

text \<open>
  The arithmetic of \<open>double\<close>. \<open>rne\<close> rounds to the nearest integer, halfway cases to
  the even one. A \<open>double\<close> has a significand of 53 bits: for \<open>2^k \<le> \<bar>x\<bar> < 2^(k+1)\<close>
  the doubles around \<open>x\<close> are the multiples of \<open>2^(k-52)\<close>, and below \<open>2^(-1022)\<close>
  (the subnormal range) the multiples of \<open>2^(-1074)\<close>; \<open>ulp_exp x\<close> is this exponent and
  \<open>fl x\<close> the double nearest to \<open>x\<close>. A result of \<open>2^1024\<close> or more, which is an
  infinity in the code, stays finite here: the only operation of the file that can
  produce one is the product of \<open>JumpToTime\<close>, and either value is outside \<open>int\<close>.
  \<open>dadd\<close>, \<open>dsub\<close>, \<open>dmul\<close> and \<open>ddiv\<close> are \<open>+\<close>, \<open>-\<close>, \<open>*\<close> and \<open>/\<close> on
  \<open>double\<close>; the conversion of a \<open>uint\<close> or an \<open>int\<close> to \<open>double\<close> is exact, that of
  a \<open>uint64\<close> rounds.
\<close>

definition rne :: "real \<Rightarrow> int" where
  "rne y = (let f = \<lfloor>y\<rfloor>
            in if y - of_int f < 1 / 2 then f
               else if 1 / 2 < y - of_int f then f + 1
               else if even f then f else f + 1)"

definition ulp_exp :: "real \<Rightarrow> int" where
  "ulp_exp x = max \<lfloor>log 2 \<bar>x\<bar>\<rfloor> (- 1022) - 52"

definition fl :: "real \<Rightarrow> double" where
  "fl x = (if x = 0 then 0
           else of_int (rne (x / 2 powr of_int (ulp_exp x))) * 2 powr of_int (ulp_exp x))"

definition dadd :: "double \<Rightarrow> double \<Rightarrow> double" where
  "dadd a b = fl (a + b)"

definition dsub :: "double \<Rightarrow> double \<Rightarrow> double" where
  "dsub a b = fl (a - b)"

definition dmul :: "double \<Rightarrow> double \<Rightarrow> double" where
  "dmul a b = fl (a * b)"

definition ddiv :: "double \<Rightarrow> double \<Rightarrow> double" where
  "ddiv a b = fl (a / b)"

subsection \<open>The data\<close>

text \<open>The fields of \<open>WAVEFORMATEXTENSIBLE\<close> that the constructor reads.\<close>

record WAVEFORMAT =
  wFormatTag :: WORD
  nChannels :: WORD
  nSamplesPerSec :: DWORD
  wBitsPerSample :: WORD
  SubFormat :: GUID

text \<open>
  The members of the class that the ring operations use (lines 43 to 56);
  \<open>SamplesPerSec\<close> is \<open>Format->Format.nSamplesPerSec\<close>.
\<close>

record capture =
  Ring :: "uint8 list"
  RingSize :: uint
  RingRead :: uint
  RingWrite :: uint
  RingTimePos :: uint
  RingTimeValue :: double
  BytesPerSample :: uint
  SamplesPerSec :: DWORD

text \<open>
  What \<open>GetBuffer\<close> hands to the capture thread for one packet (line 73): the payload,
  the number of sample frames, the flags and the QPC time in 100 ns ticks. The payload of
  a silent packet may be anything.
\<close>

record packet =
  data :: "uint8 list"
  samples :: uint
  flags :: DWORD
  qpctime :: uint64

subsection \<open>Session negotiation (constructor, lines 149 to 156)\<close>

text \<open>
  Modelled from the spec: the macro \<open>ASSERT\<close> comes from system.h. Following "aborts
  (fatal) if it is not 32-bit float", a failed assertion ends the session with the error
  \<open>AssertionFailed\<close>.

  The storage comes from \<open>new uint8[RingSize]\<close> and is not initialised: its first
  contents are the parameter \<open>garbage\<close>. The product of the two \<open>WORD\<close> fields is
  computed in \<open>int\<close>.
\<close>

definition Negotiate :: "WAVEFORMAT \<Rightarrow> (nat \<Rightarrow> uint8) \<Rightarrow> error + capture" where
  "Negotiate fmt garbage =
     (if \<not> (wFormatTag fmt = WAVE_FORMAT_EXTENSIBLE \<and> SubFormat fmt = KSDATAFORMAT_SUBTYPE_IEEE_FLOAT)
      then Inl AssertionFailed
      else if 2 ^ 31 \<le> uint (nChannels fmt) * uint (wBitsPerSample fmt)
      then Inl SignedOverflow
      else
        let bps = (word_of_int (uint (nChannels fmt) * uint (wBitsPerSample fmt) div 8) :: uint);
            rsize = nSamplesPerSec fmt * bps
        in Inr \<lparr> Ring = map garbage [0 ..< unat rsize],
                 RingSize = rsize,
                 RingRead = 0,
                 RingWrite = 0,
                 RingTimePos = 0,
                 RingTimeValue = 0,
                 BytesPerSample = bps,
                 SamplesPerSec = nSamplesPerSec fmt \<rparr>)"

subsection \<open>Append: one packet in the capture thread (lines 74 to 108)\<close>

text \<open>The part under the lock (lines 79 to 96): the new cursors and anchor, and \<open>pos\<close>.\<close>

definition Append_cursors :: "capture \<Rightarrow> uint \<Rightarrow> double \<Rightarrow> capture \<times> uint" where
  "Append_cursors s bytes time =
     (let avail = RingSize s - (RingWrite s - RingRead s);
          s1 = (if bytes > avail then s\<lparr>RingRead := RingRead s + (bytes - avail)\<rparr> else s);
          s2 = s1\<lparr>RingTimePos := RingWrite s1, RingTimeValue := time\<rparr>;
          pos = RingWrite s2 mod RingSize s2;
          s3 = s2\<lparr>RingWrite := RingWrite s2 + bytes\<rparr>;
          s4 = (if RingRead s3 > RingSize s3
                then s3\<lparr>RingWrite := RingWrite s3 - RingSize s3,
                        RingRead := RingRead s3 - RingSize s3,
                        RingTimePos := RingTimePos s3 - RingSize s3\<rparr>
                else s3)
      in (s4, pos))"

text \<open>The part after the lock (lines 98 to 108): two segments, zero-filled or copied.\<close>

definition Append_copy :: "uint8 list \<Rightarrow> uint \<Rightarrow> uint \<Rightarrow> uint \<Rightarrow> packet \<Rightarrow> error + uint8 list" where
  "Append_copy ring rsize pos bytes p =
     (let chunk1 = Min_uint bytes (rsize - pos)
      in if flags p AND AUDCLNT_BUFFERFLAGS_SILENT \<noteq> 0
         then (case memset_ring ring (unat pos) (unat chunk1) of
                 Inl e \<Rightarrow> Inl e
               | Inr r1 \<Rightarrow> memset_ring r1 0 (unat (bytes - chunk1)))
         else (case memcpy_to_ring ring (unat pos) (data p) (unat chunk1) of
                 Inl e \<Rightarrow> Inl e
               | Inr r1 \<Rightarrow> memcpy_to_ring r1 0 (drop (unat chunk1) (data p)) (unat (bytes - chunk1))))"

text \<open>
  Line 74, \<open>time = (double)qpctime / REFPERSEC\<close>, and line 76,
  \<open>bytes = samples * BytesPerSample\<close>.
\<close>

definition pkt_time :: "packet \<Rightarrow> double" where
  "pkt_time p = ddiv (fl (real (unat (qpctime p)))) (real_of_int REFPERSEC)"

definition pkt_bytes :: "capture \<Rightarrow> packet \<Rightarrow> uint" where
  "pkt_bytes s p = samples p * BytesPerSample s"

definition Append :: "capture \<Rightarrow> packet \<Rightarrow> error + capture" where
  "Append s p =
     (let time = pkt_time p;
          bytes = pkt_bytes s p
      in if RingSize s = 0 then Inl DivisionByZero
         else (case Append_cursors s bytes time of
                 (s4, pos) \<Rightarrow>
                   (case Append_copy (Ring s) (RingSize s) pos bytes p of
                      Inl e \<Rightarrow> Inl e
                    | Inr r \<Rightarrow> Inr (s4\<lparr>Ring := r\<rparr>))))"


subsection \<open>Read, JumpToTime, Flush (lines 208 to 236)\<close>

text \<open>
  \<open>Read\<close> returns the new state, the bytes stored to \<open>dest\<close>, the returned count and the
  time stamp. Line 211 converts both counters to \<open>double\<close>, subtracts, divides by the
  \<open>uint\<close> product converted to \<open>double\<close> and adds the time of the anchor. The divisor is
  \<open>RingSize\<close> in every state that the constructor and the four operations reach, so it is
  not zero where \<open>Read\<close> is defined.
\<close>

definition Read :: "capture \<Rightarrow> uint \<Rightarrow> error + (capture \<times> uint8 list \<times> uint \<times> double)" where
  "Read s sz =
     (let time = dadd (RingTimeValue s)
                   (ddiv (dsub (real (unat (RingRead s))) (real (unat (RingTimePos s))))
                         (real (unat (BytesPerSample s * SamplesPerSec s))));
          size' = Min_uint sz (RingWrite s - RingRead s)
      in if RingSize s = 0 then Inl DivisionByZero
         else
           let pos = RingRead s mod RingSize s;
               chunk1 = Min_uint size' (RingSize s - pos)
           in (case memcpy_from_ring (Ring s) (unat pos) (unat chunk1) of
                 Inl e \<Rightarrow> Inl e
               | Inr d1 \<Rightarrow>
                   (case memcpy_from_ring (Ring s) 0 (unat (size' - chunk1)) of
                      Inl e \<Rightarrow> Inl e
                    | Inr d2 \<Rightarrow> Inr (s\<lparr>RingRead := RingRead s + size'\<rparr>, d1 @ d2, size', time))))"

text \<open>
  The difference and the product of line 226 are operations of \<open>double\<close>.
  \<open>deltasamples * BytesPerSample\<close> and the sum are computed in \<open>uint\<close>; the result is
  converted to \<open>int\<close>, as are the two bounds handed to \<open>Clamp<int>\<close>.
\<close>

definition JumpToTime :: "capture \<Rightarrow> double \<Rightarrow> error + capture" where
  "JumpToTime s time =
     (let r = c_round (dmul (dsub time (RingTimeValue s)) (real (unat (SamplesPerSec s))))
      in if r < - (2 ^ 31) \<or> 2 ^ 31 \<le> r then Inl IntConversionUndefined
         else
           let deltasamples = (word_of_int r :: uint);
               destpos = sint (RingTimePos s + deltasamples * BytesPerSample s)
           in Inr (s\<lparr>RingRead := word_of_int (Clamp destpos (sint (RingRead s)) (sint (RingWrite s)))\<rparr>))"

definition Flush :: "capture \<Rightarrow> capture" where
  "Flush s = s\<lparr>RingRead := RingWrite s\<rparr>"

subsection \<open>Sequences of calls\<close>

datatype call = CallAppend packet | CallRead uint | CallJumpToTime double | CallFlush

fun step :: "capture \<Rightarrow> call \<Rightarrow> error + capture" where
  "step s (CallAppend p) = Append s p"
| "step s (CallRead n) = (case Read s n of Inl e \<Rightarrow> Inl e | Inr (s', _) \<Rightarrow> Inr s')"
| "step s (CallJumpToTime t) = JumpToTime s t"
| "step s CallFlush = Inr (Flush s)"

fun run :: "capture \<Rightarrow> call list \<Rightarrow> error + capture" where
  "run s [] = Inr s"
| "run s (c # cs) = (case step s c of Inl e \<Rightarrow> Inl e | Inr s' \<Rightarrow> run s' cs)"

subsection \<open>Notions used to state the properties\<close>

text \<open>
  The number of bytes that line 82 adds to \<open>RingRead\<close> for a packet of \<open>b\<close> bytes, and the
  amount that lines 90 to 95 take off the three counters.
\<close>

definition dropped :: "capture \<Rightarrow> uint \<Rightarrow> uint" where
  "dropped s b = (if RingSize s - (RingWrite s - RingRead s) < b
                  then b - (RingSize s - (RingWrite s - RingRead s)) else 0)"

definition rebase :: "capture \<Rightarrow> uint \<Rightarrow> uint" where
  "rebase s b = (if RingSize s < RingRead s + dropped s b then RingSize s else 0)"

text \<open>
  The invariant of the ring in the arithmetic of the code: the storage has the allocated
  size, which is not zero, and the \<open>uint\<close> difference of the cursors is at most the size.
\<close>

definition ring_inv :: "capture \<Rightarrow> bool" where
  "ring_inv s \<longleftrightarrow> RingSize s \<noteq> 0 \<and> length (Ring s) = unat (RingSize s)
                 \<and> RingWrite s - RingRead s \<le> RingSize s"

text \<open>The same bound on the values of the cursors, without wrap-around.\<close>

definition ordered :: "capture \<Rightarrow> bool" where
  "ordered s \<longleftrightarrow> unat (RingRead s) \<le> unat (RingWrite s)
                \<and> unat (RingWrite s) \<le> unat (RingRead s) + unat (RingSize s)"

text \<open>
  The states in which no counter is near the end of its 32-bit range: the invariant of the
  ring holds, no cursor has wrapped, the ring is shorter than \<open>2^30\<close> bytes and the write
  cursor has been rebased to at most twice the size. The constructor establishes this, and
  the consumer calls and every Append of a packet of at most \<open>RingSize\<close> bytes keep it
  (\<open>Negotiate_ring_wf\<close>, \<open>inside_ring_wf\<close>, \<open>Append_ring_wf\<close>, \<open>run_ring_wf\<close>).
\<close>

definition ring_wf :: "capture \<Rightarrow> bool" where
  "ring_wf s \<longleftrightarrow> ring_inv s \<and> ordered s \<and> unat (RingSize s) < 2 ^ 30
            \<and> unat (RingWrite s) \<le> 2 * unat (RingSize s)"


text \<open>
  \<open>inside s s'\<close>: the state \<open>s'\<close> is \<open>s\<close> with the read cursor moved forward to a
  position \<open>c\<close> of the buffered region: the bytes skipped and the bytes left add up to the
  bytes that were buffered. Every consumer call is such a move (\<open>step_consumer_inside\<close>).
\<close>

definition inside :: "capture \<Rightarrow> capture \<Rightarrow> bool" where
  "inside s s' \<longleftrightarrow>
     (\<exists>c. s' = s\<lparr>RingRead := c\<rparr>
        \<and> unat (RingWrite s - c) \<le> unat (RingWrite s - RingRead s)
        \<and> unat (c - RingRead s) + unat (RingWrite s - c) = unat (RingWrite s - RingRead s))"

text \<open>
  The \<open>n\<close> bytes of a circular storage that start at the position \<open>pos\<close>, and the bytes
  that are buffered, oldest first: the \<open>RingWrite - RingRead\<close> bytes from the position of
  the read cursor on. This is what the consumer can still read. \<open>newest n xs\<close> is the
  list of the last \<open>n\<close> elements of \<open>xs\<close> (all of it when it is shorter).
\<close>

definition ring_slice :: "'a list \<Rightarrow> nat \<Rightarrow> nat \<Rightarrow> 'a list" where
  "ring_slice ring pos n = map (\<lambda>i. ring ! ((pos + i) mod length ring)) [0 ..< n]"

definition buffered :: "capture \<Rightarrow> uint8 list" where
  "buffered s = ring_slice (Ring s) (unat (RingRead s) mod unat (RingSize s))
                  (unat (RingWrite s - RingRead s))"

definition newest :: "nat \<Rightarrow> 'a list \<Rightarrow> 'a list" where
  "newest n xs = drop (length xs - n) xs"

text \<open>
  The storage after the bytes \<open>ys\<close> have been stored from the offset \<open>off\<close> on, and after
  the two segments of lines 98 to 108 have been stored for the bytes \<open>xs\<close>.
\<close>

definition store :: "'a list \<Rightarrow> nat \<Rightarrow> 'a list \<Rightarrow> 'a list" where
  "store ring off ys = take off ring @ ys @ drop (off + length ys) ring"

definition wrap_write :: "'a list \<Rightarrow> nat \<Rightarrow> 'a list \<Rightarrow> 'a list" where
  "wrap_write ring pos xs =
     (let c1 = min (length xs) (length ring - pos)
      in store (store ring pos (take c1 xs)) 0 (drop c1 xs))"

text \<open>
  The silence flag of a packet, and the bytes that Append stores for it: zeros when it is
  silent, the first \<open>b\<close> bytes of the payload otherwise.
\<close>

definition silent :: "packet \<Rightarrow> bool" where
  "silent p \<longleftrightarrow> flags p AND AUDCLNT_BUFFERFLAGS_SILENT \<noteq> 0"

definition written :: "packet \<Rightarrow> uint \<Rightarrow> uint8 list" where
  "written p b = (if silent p then replicate (unat b) 0 else take (unat b) (data p))"

text \<open>
  \<open>GetBuffer\<close> delivers a payload of at least \<open>samples * BytesPerSample\<close> bytes, unless
  the packet is silent (then the payload is not read).
\<close>

definition payload_ok :: "capture \<Rightarrow> packet \<Rightarrow> bool" where
  "payload_ok s p \<longleftrightarrow> silent p \<or> unat (pkt_bytes s p) \<le> length (data p)"

text \<open>
  The packets whose second segment ends inside the storage: \<open>bytes - chunk1\<close> is at most
  \<open>RingSize\<close>. Every packet of at most \<open>RingSize\<close> bytes is one (\<open>small_fits\<close>).
\<close>

definition fits :: "capture \<Rightarrow> packet \<Rightarrow> bool" where
  "fits s p \<longleftrightarrow> unat (pkt_bytes s p) + unat (RingWrite s) mod unat (RingSize s) \<le> 2 * unat (RingSize s)"

text \<open>A sequence of packets that have their payload and are at most \<open>RingSize\<close> bytes long.\<close>

definition small_packets :: "capture \<Rightarrow> packet list \<Rightarrow> bool" where
  "small_packets s ps \<longleftrightarrow>
     (\<forall>p \<in> set ps. payload_ok s p \<and> unat (pkt_bytes s p) \<le> unat (RingSize s))"

text \<open>
  The target offset of the specification, computed in the integers and the reals:
  \<open>anchor.offset + round ((t - anchor.time) * sampleRate) * bytesPerSample\<close>.
\<close>

definition jump_target :: "capture \<Rightarrow> real \<Rightarrow> int" where
  "jump_target s t =
     int (unat (RingTimePos s))
     + c_round ((t - RingTimeValue s) * real (unat (SamplesPerSec s))) * int (unat (BytesPerSample s))"

text \<open>
  The check of line 152, and the reading of "32-bit float" that follows the words of the
  specification: a float encoding, described with or without the extensible header, with
  32 bits per sample.
\<close>

definition float_extensible :: "WAVEFORMAT \<Rightarrow> bool" where
  "float_extensible fmt \<longleftrightarrow>
     wFormatTag fmt = WAVE_FORMAT_EXTENSIBLE \<and> SubFormat fmt = KSDATAFORMAT_SUBTYPE_IEEE_FLOAT"

definition is_float32 :: "WAVEFORMAT \<Rightarrow> bool" where
  "is_float32 fmt \<longleftrightarrow>
     (wFormatTag fmt = WAVE_FORMAT_IEEE_FLOAT \<or> float_extensible fmt) \<and> wBitsPerSample fmt = 32"

subsection \<open>Concrete sessions\<close>

text \<open>
  The session of the scenarios of the specification ("capacity = 10 bytes, 1 byte/sample"):
  one channel of 8 bits at 10 Hz, with packets that hold one sample frame for each byte of
  their payload, and silent packets without a payload.
\<close>

definition demo_format :: WAVEFORMAT where
  "demo_format = \<lparr> wFormatTag = 0xFFFE, nChannels = 1, nSamplesPerSec = 10,
                    wBitsPerSample = 8, SubFormat = 0x0000000300000010800000AA00389B71 \<rparr>"

definition demo_start :: capture where
  "demo_start = \<lparr> Ring = [7, 7, 7, 7, 7, 7, 7, 7, 7, 7], RingSize = 10, RingRead = 0,
                   RingWrite = 0, RingTimePos = 0, RingTimeValue = 0,
                   BytesPerSample = 1, SamplesPerSec = 10 \<rparr>"

definition demo_packet :: "uint8 list \<Rightarrow> DWORD \<Rightarrow> uint64 \<Rightarrow> packet" where
  "demo_packet xs fg t = \<lparr> data = xs, samples = of_nat (length xs), flags = fg, qpctime = t \<rparr>"

definition silent_packet :: "uint \<Rightarrow> uint64 \<Rightarrow> packet" where
  "silent_packet n t = \<lparr> data = [], samples = n, flags = 2, qpctime = t \<rparr>"

text \<open>
  States of this session: after a packet \<open>1, 2, 3, 4\<close> at the time 0; after a further
  packet \<open>1, ..., 8\<close> at the time 0.4, which overflows the ring by two bytes and wraps;
  the same when three bytes have been read before the second packet; and the full ring after
  a silent packet of six bytes. The time of the anchor is the double nearest to 0.4 and to
  1.2.
\<close>

definition demo_four :: capture where
  "demo_four = \<lparr> Ring = [1, 2, 3, 4, 7, 7, 7, 7, 7, 7], RingSize = 10, RingRead = 0,
                  RingWrite = 4, RingTimePos = 0, RingTimeValue = 0,
                  BytesPerSample = 1, SamplesPerSec = 10 \<rparr>"

definition demo_wrapped :: capture where
  "demo_wrapped = \<lparr> Ring = [7, 8, 3, 4, 1, 2, 3, 4, 5, 6], RingSize = 10, RingRead = 2,
                     RingWrite = 12, RingTimePos = 4, RingTimeValue = fl (2 / 5),
                     BytesPerSample = 1, SamplesPerSec = 10 \<rparr>"

definition demo_later :: capture where
  "demo_later = \<lparr> Ring = [7, 8, 3, 4, 1, 2, 3, 4, 5, 6], RingSize = 10, RingRead = 3,
                   RingWrite = 12, RingTimePos = 4, RingTimeValue = fl (2 / 5),
                   BytesPerSample = 1, SamplesPerSec = 10 \<rparr>"




text \<open>
  A session at 48 kHz with two channels of 32-bit float (8 bytes per sample frame, a ring of
  384000 bytes) after one packet of 480 sample frames with the time 0.
\<close>

definition studio :: capture where
  "studio = \<lparr> Ring = replicate 384000 0, RingSize = 384000, RingRead = 0, RingWrite = 3840,
               RingTimePos = 0, RingTimeValue = 0, BytesPerSample = 8, SamplesPerSec = 48000 \<rparr>"

text \<open>
  A session with a ring of \<open>2^31 + 16\<close> bytes: two channels of 64-bit float at 134217729
  sample frames per second, and a silent packet of \<open>2^27\<close> sample frames, which is
  \<open>2^31\<close> bytes.
\<close>

definition giant_format :: WAVEFORMAT where
  "giant_format = \<lparr> wFormatTag = 0xFFFE, nChannels = 2, nSamplesPerSec = 134217729,
                     wBitsPerSample = 64, SubFormat = 0x0000000300000010800000AA00389B71 \<rparr>"

definition giant_start :: capture where
  "giant_start = \<lparr> Ring = map (\<lambda>_. 0) [0 ..< 2147483664], RingSize = 2147483664,
                    RingRead = 0, RingWrite = 0, RingTimePos = 0, RingTimeValue = 0,
                    BytesPerSample = 16, SamplesPerSec = 134217729 \<rparr>"

definition giant_silence :: packet where
  "giant_silence = \<lparr> data = [], samples = 134217728, flags = 2, qpctime = 0 \<rparr>"

text \<open>
  Stereo formats at 48 kHz: 64-bit float with the extensible header, 32-bit float with the
  extensible header, and 32-bit float with the plain tag \<open>WAVE_FORMAT_IEEE_FLOAT\<close>.
\<close>

definition float64_format :: WAVEFORMAT where
  "float64_format = \<lparr> wFormatTag = 0xFFFE, nChannels = 2, nSamplesPerSec = 48000,
                       wBitsPerSample = 64, SubFormat = 0x0000000300000010800000AA00389B71 \<rparr>"

definition float32_format :: WAVEFORMAT where
  "float32_format = \<lparr> wFormatTag = 0xFFFE, nChannels = 2, nSamplesPerSec = 48000,
                       wBitsPerSample = 32, SubFormat = 0x0000000300000010800000AA00389B71 \<rparr>"

definition plain_float32_format :: WAVEFORMAT where
  "plain_float32_format = \<lparr> wFormatTag = 0x0003, nChannels = 2, nSamplesPerSec = 48000,
                             wBitsPerSample = 32, SubFormat = 0 \<rparr>"

section \<open>Properties\<close>

subsection \<open>Rounding to double\<close>

text \<open>
  \<open>rne\<close> is monotone and odd, and so is \<open>fl\<close>; \<open>fl\<close> leaves every integer below
  \<open>2^53\<close> as it is; and \<open>fl x\<close> is computed from the power of two that brings \<open>x\<close>
  between \<open>2^52\<close> and \<open>2^53\<close>.
\<close>

lemma rne_of_int: "rne (of_int n) = n"
  by (simp add: rne_def)





lemma fl_0: "fl 0 = 0"
  by (simp add: fl_def)










lemma ulp_exp_eq:
  assumes "2 powr of_int (e + 52) \<le> \<bar>x\<bar>" "\<bar>x\<bar> < 2 powr of_int (e + 53)" "- 1074 \<le> e"
  shows "ulp_exp x = e"
proof -
  have "0 < \<bar>x\<bar>"
    using assms(1) powr_gt_zero[of 2 "of_int (e + 52)"] by linarith
  moreover have "\<bar>x\<bar> < 2 powr (of_int (e + 52) + 1)"
    using assms(2) by (simp add: add.commute)
  ultimately have "\<lfloor>log 2 \<bar>x\<bar>\<rfloor> = e + 52"
    using assms(1) floor_log_eq_powr_iff[of "\<bar>x\<bar>" 2 "e + 52"] by simp
  then show ?thesis
    using assms(3) by (simp add: ulp_exp_def)
qed

lemma two_powr_minus: "(2::real) powr (- real n) = 1 / 2 ^ n"
  by (simp add: powr_minus powr_realpow inverse_eq_divide)


lemma two_powr_add: "(2::real) powr (real n + numeral k) = 2 ^ numeral k * 2 ^ n"
  by (simp add: powr_add powr_realpow)


lemma fl_eval_up:
  assumes "2 ^ 52 \<le> \<bar>x\<bar> / 2 ^ n" "\<bar>x\<bar> / 2 ^ n < 2 ^ 53"
  shows "fl x = of_int (rne (x / 2 ^ n)) * 2 ^ n"
proof -
  have "2 powr of_int (int n + 52) \<le> \<bar>x\<bar>"
    using assms(1) by (simp add: two_powr_add le_divide_eq)
  moreover have "\<bar>x\<bar> < 2 powr of_int (int n + 53)"
    using assms(2) by (simp add: two_powr_add divide_less_eq)
  ultimately have e: "ulp_exp x = int n"
    by (intro ulp_exp_eq) simp_all
  have "x \<noteq> 0"
    using assms(1) by auto
  then show ?thesis
    by (simp add: fl_def e powr_realpow)
qed

lemma fl_of_int:
  assumes "\<bar>m\<bar> < 2 ^ 53"
  shows "fl (of_int m) = of_int m"
proof (cases "m = 0")
  case True
  then show ?thesis by (simp add: fl_0)
next
  case False
  define x :: real where "x = of_int m"
  define k where "k = \<lfloor>log 2 \<bar>x\<bar>\<rfloor>"
  have ax: "\<bar>x\<bar> = real_of_int \<bar>m\<bar>"
    by (simp add: x_def)
  have "1 \<le> \<bar>m\<bar>"
    using False by simp
  then have "real_of_int 1 \<le> real_of_int \<bar>m\<bar>"
    by (simp only: of_int_le_iff)
  then have one: "1 \<le> \<bar>x\<bar>"
    by (simp only: ax of_int_1)
  have "real_of_int \<bar>m\<bar> < real_of_int (2 ^ 53)"
    using assms by (simp only: of_int_less_iff)
  then have lt: "\<bar>x\<bar> < 2 ^ 53"
    by (simp only: ax) simp
  have pos: "0 < \<bar>x\<bar>"
    using one by linarith
  have "0 \<le> log 2 \<bar>x\<bar>"
    using one by simp
  then have k0: "0 \<le> k"
    by (simp add: k_def)
  have "log 2 \<bar>x\<bar> < 53"
    using lt pos by (simp add: log_less_iff)
  then have k52: "k \<le> 52"
    unfolding k_def by linarith
  define j where "j = nat (52 - k)"
  have e: "ulp_exp x = - int j"
    using k0 k52 by (simp add: ulp_exp_def k_def[symmetric] j_def)
  have "x * 2 ^ j = of_int (m * 2 ^ j)"
    by (simp add: x_def)
  then have r: "rne (x * 2 ^ j) = m * 2 ^ j"
    by (simp only: rne_of_int)
  have xm: "real_of_int m = x"
    by (simp add: x_def)
  have "fl x = x"
    using pos by (simp add: fl_def e two_powr_minus r xm)
  then show ?thesis
    by (simp add: x_def)
qed

lemma fl_numeral: "numeral n < (2 ^ 53 :: int) \<Longrightarrow> fl (numeral n) = numeral n"
  using fl_of_int[of "numeral n"] by simp

lemma fl_1: "fl 1 = 1"
  using fl_of_int[of 1] by simp

subsection \<open>Evaluation of the model on concrete inputs\<close>

lemmas model_defs = Negotiate_def
  WAVE_FORMAT_EXTENSIBLE_def KSDATAFORMAT_SUBTYPE_IEEE_FLOAT_def AUDCLNT_BUFFERFLAGS_SILENT_def
  Append_def Append_cursors_def Append_copy_def pkt_bytes_def pkt_time_def REFPERSEC_def
  Min_uint_def memset_ring_def memcpy_to_ring_def memcpy_from_ring_def
  Read_def JumpToTime_def Flush_def Clamp_def c_round_def Let_def

lemmas double_defs = dadd_def dsub_def dmul_def ddiv_def fl_0 fl_1 fl_numeral

lemma replicate_numeral_Cons: "replicate (numeral k) x = x # replicate (pred_numeral k) x"
  by (simp add: numeral_eq_Suc)

lemmas demo_defs = demo_format_def demo_start_def demo_packet_def replicate_numeral_Cons

lemmas demo_states = demo_four_def demo_wrapped_def silent_packet_def

lemmas format_defs = float_extensible_def is_float32_def float64_format_def float32_format_def
  plain_float32_format_def WAVE_FORMAT_EXTENSIBLE_def WAVE_FORMAT_IEEE_FLOAT_def
  KSDATAFORMAT_SUBTYPE_IEEE_FLOAT_def

lemma upt_0_numeral: "[0 ..< numeral n] = 0 # [Suc 0 ..< numeral n]"
  by (simp add: upt_rec)

lemma upt_Suc_0_numeral: "[Suc 0 ..< numeral n] = (if Suc 0 < numeral n then Suc 0 # [2 ..< numeral n] else [])"
  by (simp add: upt_rec[of "Suc 0"] numeral_2_eq_2)

lemmas buffered_eval = buffered_def ring_slice_def upt_0_numeral upt_Suc_0_numeral

lemma demo_Negotiate: "Negotiate demo_format (\<lambda>_. 7) = Inr demo_start"
  by code_simp

lemma demo_Append_four: "Append demo_start (demo_packet [1, 2, 3, 4] 0 0) = Inr demo_four"
  by (simp add: demo_defs demo_states model_defs double_defs)

lemma demo_Append_wrapped:
  "Append demo_four (demo_packet [1, 2, 3, 4, 5, 6, 7, 8] 0 4000000) = Inr demo_wrapped"
  by (simp add: demo_defs demo_states model_defs double_defs)

lemma demo_run_wrapped:
  "run demo_start [CallAppend (demo_packet [1, 2, 3, 4] 0 0),
                   CallAppend (demo_packet [1, 2, 3, 4, 5, 6, 7, 8] 0 4000000)] = Inr demo_wrapped"
  by (simp add: demo_Append_four demo_Append_wrapped)


lemma demo_buffered_four: "buffered demo_four = [1, 2, 3, 4]"
  by (simp add: buffered_eval demo_states)




subsection \<open>The cursors\<close>

lemma Append_cursors_eq:
  "Append_cursors s b t =
     (s\<lparr>RingRead := RingRead s + dropped s b - rebase s b,
        RingWrite := RingWrite s + b - rebase s b,
        RingTimePos := RingWrite s - rebase s b,
        RingTimeValue := t\<rparr>, RingWrite s mod RingSize s)"
  by (simp add: Append_cursors_def dropped_def rebase_def Let_def)

lemma word_add_within:
  fixes d b c :: "'a::len word"
  assumes "d \<le> c" "b \<le> c - d"
  shows "unat (d + b) = unat d + unat b" and "d + b \<le> c"
proof -
  have 1: "unat (c - d) = unat c - unat d" using assms(1) by (simp add: unat_sub)
  have 2: "unat b \<le> unat c - unat d" using assms(2) 1 by (simp add: word_le_nat_alt)
  have 3: "unat d \<le> unat c" using assms(1) by (simp add: word_le_nat_alt)
  have 4: "unat d + unat b \<le> unat c" using 2 3 by arith
  have "unat c < 2 ^ LENGTH('a)" by (rule unsigned_less)
  with 4 have "unat d + unat b < 2 ^ LENGTH('a)" by arith
  then show 5: "unat (d + b) = unat d + unat b" by (simp add: unat_add_lem)
  show "d + b \<le> c" using 4 5 by (simp add: word_le_nat_alt)
qed

lemma Append_buffered:
  "(RingWrite s + b - rebase s b) - (RingRead s + dropped s b - rebase s b)
     = (if RingSize s - (RingWrite s - RingRead s) < b then RingSize s
        else (RingWrite s - RingRead s) + b)"
  by (simp add: dropped_def algebra_simps)

lemma Append_cursors_diff:
  assumes "RingWrite s - RingRead s \<le> RingSize s" "Append_cursors s b t = (s', pos)"
  shows "RingWrite s' - RingRead s' \<le> RingSize s'"
proof -
  let ?d = "RingWrite s - RingRead s"
  have eq: "RingWrite s' - RingRead s' = (if RingSize s - ?d < b then RingSize s else ?d + b)"
    and sz: "RingSize s' = RingSize s"
    using assms(2) Append_buffered[of s b] by (auto simp: Append_cursors_eq)
  show ?thesis
  proof (cases "RingSize s - ?d < b")
    case True
    then show ?thesis using eq sz by simp
  next
    case False
    then have "b \<le> RingSize s - ?d" by simp
    from word_add_within(2)[OF assms(1) this] show ?thesis using eq sz False by simp
  qed
qed

lemma ordered_iff: "ordered s \<longleftrightarrow> RingRead s \<le> RingWrite s \<and> RingWrite s - RingRead s \<le> RingSize s"
proof -
  have "RingRead s \<le> RingWrite s \<Longrightarrow> unat (RingWrite s - RingRead s) = unat (RingWrite s) - unat (RingRead s)"
    by (simp add: unat_sub)
  then show ?thesis
    unfolding ordered_def word_le_nat_alt by auto
qed

lemma word_le_from_diff:
  fixes x y :: "'a::len word"
  assumes "unat x + unat (y - x) < 2 ^ LENGTH('a)"
  shows "x \<le> y"
proof -
  have "unat (x + (y - x)) = unat x + unat (y - x)" using assms by (simp add: unat_add_lem)
  then have "unat y = unat x + unat (y - x)" by simp
  then show ?thesis by (simp add: word_le_nat_alt)
qed

lemma Append_cursors_ordered:
  assumes inv: "RingWrite s - RingRead s \<le> RingSize s"
    and small: "unat (RingSize s) < 2 ^ 31"
    and ap: "Append_cursors s b t = (s', pos)"
  shows "ordered s'"
proof -
  have d': "RingWrite s' - RingRead s' \<le> RingSize s'" by (rule Append_cursors_diff[OF inv ap])
  have sz: "RingSize s' = RingSize s" and rd: "RingRead s' = RingRead s + dropped s b - rebase s b"
    using ap by (auto simp: Append_cursors_eq)
  have dn: "unat (RingWrite s' - RingRead s') \<le> unat (RingSize s)"
    using d' sz by (simp add: word_le_nat_alt)
  have "unat (RingRead s') + unat (RingSize s) < 2 ^ 32"
  proof (cases "RingSize s < RingRead s + dropped s b")
    case True
    then have "unat (RingRead s') = unat (RingRead s + dropped s b) - unat (RingSize s)"
      using rd by (simp add: rebase_def unat_sub)
    moreover have "unat (RingSize s) < unat (RingRead s + dropped s b)"
      using True by (simp add: word_less_nat_alt)
    moreover have "unat (RingRead s + dropped s b) < 2 ^ 32"
      using unsigned_less[of "RingRead s + dropped s b"] by simp
    ultimately show ?thesis by arith
  next
    case False
    then have "RingRead s' = RingRead s + dropped s b" and "RingRead s + dropped s b \<le> RingSize s"
      using rd by (simp_all add: rebase_def)
    then have "unat (RingRead s') \<le> unat (RingSize s)" by (simp add: word_le_nat_alt)
    then show ?thesis using small by simp
  qed
  then have "unat (RingRead s') + unat (RingWrite s' - RingRead s') < 2 ^ LENGTH(32)"
    using dn by simp
  then have "RingRead s' \<le> RingWrite s'" by (rule word_le_from_diff)
  then show ?thesis using d' by (simp add: ordered_iff)
qed

lemma Min_uint_unat: "unat (Min_uint a b) = min (unat a) (unat b)"
  by (auto simp: Min_uint_def word_less_nat_alt)

lemma Min_uint_le2: "Min_uint a b \<le> b"
  by (auto simp: Min_uint_def)

lemma Min_uint_sub: "unat (a - Min_uint a b) = unat a - min (unat a) (unat b)"
proof -
  have "Min_uint a b \<le> a" by (auto simp: Min_uint_def)
  then show ?thesis by (simp add: unat_sub Min_uint_unat)
qed

lemma Read_Inr:
  assumes "Read s n = Inr (s', out, k, t)"
  shows "k = Min_uint n (RingWrite s - RingRead s)"
    and "s' = s\<lparr>RingRead := RingRead s + k\<rparr>"
    and "t = dadd (RingTimeValue s)
               (ddiv (dsub (real (unat (RingRead s))) (real (unat (RingTimePos s))))
                     (real (unat (BytesPerSample s * SamplesPerSec s))))"
  using assms by (auto simp: Read_def Let_def split: if_splits sum.splits)

lemma Clamp_cases:
  "Clamp v lo hi = lo \<or> Clamp v lo hi = hi \<or> (Clamp v lo hi = v \<and> lo \<le> v \<and> v \<le> hi)"
  by (auto simp: Clamp_def)

lemma Clamp_between: "lo \<le> hi \<Longrightarrow> lo \<le> Clamp v lo hi \<and> Clamp v lo hi \<le> hi"
  by (simp add: Clamp_def)

lemma sint32_bounds:
  fixes a :: uint
  shows "- 2147483648 \<le> sint a" and "sint a < 2147483648"
  using sint_ge[of a] sint_lt[of a] by simp_all

lemma uint32_of_int: "0 \<le> x \<Longrightarrow> x < 4294967296 \<Longrightarrow> uint (word_of_int x :: uint) = x"
  by (simp add: uint_word_of_int take_bit_eq_mod)

lemma word32_between:
  fixes a b :: uint
  assumes "sint a \<le> v" "v \<le> sint b"
  shows "uint (b - word_of_int v) = sint b - v" and "uint (word_of_int v - a) = v - sint a"
proof -
  note ba = sint32_bounds[of a] sint32_bounds[of b]
  have 1: "b - word_of_int v = word_of_int (sint b - v)" by simp
  have "0 \<le> sint b - v" "sint b - v < 4294967296" using assms ba by linarith+
  then show "uint (b - word_of_int v) = sint b - v" unfolding 1 by (rule uint32_of_int)
  have 2: "word_of_int v - a = word_of_int (v - sint a)" by simp
  have "0 \<le> v - sint a" "v - sint a < 4294967296" using assms ba by linarith+
  then show "uint (word_of_int v - a) = v - sint a" unfolding 2 by (rule uint32_of_int)
qed

lemma between_signed:
  fixes R W c :: uint
  assumes "sint R \<le> sint c" "sint c \<le> sint W"
  shows "unat (W - c) \<le> unat (W - R)" and "unat (c - R) + unat (W - c) = unat (W - R)"
proof -
  have 1: "uint (W - c) = sint W - sint c" "uint (c - R) = sint c - sint R"
    using word32_between[OF assms] by simp_all
  have "sint R \<le> sint R" "sint R \<le> sint W" using assms by simp_all
  from word32_between(1)[OF this] have 2: "uint (W - R) = sint W - sint R" by simp
  have a: "uint (W - c) \<le> uint (W - R)" and b: "uint (c - R) + uint (W - c) = uint (W - R)"
    using 1 2 assms by simp_all
  show "unat (W - c) \<le> unat (W - R)" using a by (simp add: word_le_nat_alt[symmetric] word_le_def)
  have "int (unat (c - R) + unat (W - c)) = int (unat (W - R))" using b by simp
  then show "unat (c - R) + unat (W - c) = unat (W - R)" by (simp only: of_nat_eq_iff)
qed

lemma JumpToTime_Inr:
  assumes "JumpToTime s t = Inr s'"
  shows "\<exists>c. s' = s\<lparr>RingRead := c\<rparr> \<and>
           (c = RingRead s \<or> c = RingWrite s \<or> (sint (RingRead s) \<le> sint c \<and> sint c \<le> sint (RingWrite s)))"
proof -
  let ?v = "sint (RingTimePos s + word_of_int (c_round (dmul (dsub t (RingTimeValue s)) (real (unat (SamplesPerSec s))))) * BytesPerSample s)"
  let ?c = "Clamp ?v (sint (RingRead s)) (sint (RingWrite s))"
  have s': "s' = s\<lparr>RingRead := word_of_int ?c\<rparr>"
    using assms by (auto simp: JumpToTime_def Let_def split: if_splits)
  consider "?c = sint (RingRead s)" | "?c = sint (RingWrite s)"
    | "?c = ?v" "sint (RingRead s) \<le> ?v" "?v \<le> sint (RingWrite s)"
    using Clamp_cases by blast
  then show ?thesis
  proof cases
    case 1 
    then have "s' = s\<lparr>RingRead := RingRead s\<rparr>" using s' by simp
    then show ?thesis by blast
  next
    case 2 
    then have "s' = s\<lparr>RingRead := RingWrite s\<rparr>" using s' by simp
    then show ?thesis by blast
  next
    case 3
    then have "s' = s\<lparr>RingRead := word_of_int ?v\<rparr>" using s' by simp
    moreover have "sint (word_of_int ?v :: uint) = ?v" by simp
    ultimately show ?thesis using 3 by (metis (no_types))
  qed
qed

lemma move_read_inside:
  fixes R W c :: uint
  assumes "unat (W - c) \<le> unat (W - R)" "unat (c - R) + unat (W - c) = unat (W - R)"
  shows "W - R \<le> cap \<Longrightarrow> W - c \<le> cap" and "R \<le> W \<Longrightarrow> R \<le> c \<and> c \<le> W"
proof -
  show "W - R \<le> cap \<Longrightarrow> W - c \<le> cap" using assms(1) by (simp add: word_le_nat_alt)
  assume RW: "R \<le> W"
  then have d: "unat (W - R) = unat W - unat R" and le: "unat R \<le> unat W"
    by (simp_all add: unat_sub word_le_nat_alt)
  have W: "unat W < 2 ^ LENGTH(32)" by (rule unsigned_less)
  have "unat R + unat (c - R) \<le> unat W" using assms d le by arith
  then have "unat R + unat (c - R) < 2 ^ LENGTH(32)" using W by (rule le_less_trans)
  then have Rc: "R \<le> c" by (rule word_le_from_diff)
  have "unat c + unat (W - c) = unat R + unat (c - R) + unat (W - c)"
    using Rc by (simp add: unat_sub word_le_nat_alt)
  also have "\<dots> = unat W" using assms d le by arith
  finally have "unat c + unat (W - c) < 2 ^ LENGTH(32)" using W by simp
  then have "c \<le> W" by (rule word_le_from_diff)
  with Rc show "R \<le> c \<and> c \<le> W" by simp
qed

lemma JumpToTime_inside:
  assumes "JumpToTime s t = Inr s'"
  shows "inside s s'"
proof -
  from JumpToTime_Inr[OF assms] obtain c where c: "s' = s\<lparr>RingRead := c\<rparr>"
    and cs: "c = RingRead s \<or> c = RingWrite s \<or> (sint (RingRead s) \<le> sint c \<and> sint c \<le> sint (RingWrite s))"
    by blast
  from cs have "unat (RingWrite s - c) \<le> unat (RingWrite s - RingRead s)
            \<and> unat (c - RingRead s) + unat (RingWrite s - c) = unat (RingWrite s - RingRead s)"
    using between_signed[of "RingRead s" c "RingWrite s"] by auto
  with c show ?thesis unfolding inside_def by blast
qed

lemma Read_inside:
  assumes "Read s n = Inr (s', out, k, t)"
  shows "inside s s'"
proof -
  let ?d = "RingWrite s - RingRead s"
  have k: "k = Min_uint n ?d" and s': "s' = s\<lparr>RingRead := RingRead s + k\<rparr>"
    using Read_Inr[OF assms] by simp_all
  have "k \<le> ?d" using k by (simp add: Min_uint_le2)
  then have 1: "unat (?d - k) = unat ?d - unat k" "unat k \<le> unat ?d"
    by (simp_all add: unat_sub word_le_nat_alt)
  have 2: "RingWrite s - (RingRead s + k) = ?d - k" "RingRead s + k - RingRead s = k" by simp_all
  have "unat (RingWrite s - (RingRead s + k)) \<le> unat ?d
      \<and> unat (RingRead s + k - RingRead s) + unat (RingWrite s - (RingRead s + k)) = unat ?d"
    unfolding 2 using 1 by simp
  with s' show ?thesis unfolding inside_def by blast
qed

lemma Flush_inside: "inside s (Flush s)"
  unfolding inside_def Flush_def by (rule exI[of _ "RingWrite s"]) simp

lemma Append_Inr:
  assumes "Append s p = Inr s'"
  shows "RingSize s \<noteq> 0"
    and "\<exists>r. Append_copy (Ring s) (RingSize s) (RingWrite s mod RingSize s) (pkt_bytes s p) p = Inr r
           \<and> s' = s\<lparr>RingRead := RingRead s + dropped s (pkt_bytes s p) - rebase s (pkt_bytes s p),
                    RingWrite := RingWrite s + pkt_bytes s p - rebase s (pkt_bytes s p),
                    RingTimePos := RingWrite s - rebase s (pkt_bytes s p),
                    RingTimeValue := pkt_time p, Ring := r\<rparr>"
  using assms
  by (auto simp: Append_def Append_cursors_eq pkt_bytes_def pkt_time_def Let_def split: if_splits sum.splits)

lemma Append_cursors_of:
  assumes "Append s p = Inr s'"
  shows "\<exists>s4 pos r. Append_cursors s (pkt_bytes s p) (pkt_time p) = (s4, pos) \<and> s' = s4\<lparr>Ring := r\<rparr>"
  using assms
  by (auto simp: Append_def pkt_bytes_def pkt_time_def Let_def split: if_splits sum.splits prod.splits)

lemma inside_fields:
  assumes "inside s s'"
  shows "RingSize s' = RingSize s" "RingWrite s' = RingWrite s" "Ring s' = Ring s"
    "RingTimePos s' = RingTimePos s" "RingTimeValue s' = RingTimeValue s"
    "BytesPerSample s' = BytesPerSample s" "SamplesPerSec s' = SamplesPerSec s"
  using assms unfolding inside_def by auto

lemma inside_diff:
  assumes "inside s s'" "RingWrite s - RingRead s \<le> RingSize s"
  shows "RingWrite s' - RingRead s' \<le> RingSize s'"
proof -
  from assms(1) obtain c where c: "s' = s\<lparr>RingRead := c\<rparr>"
    and 1: "unat (RingWrite s - c) \<le> unat (RingWrite s - RingRead s)"
    and 2: "unat (c - RingRead s) + unat (RingWrite s - c) = unat (RingWrite s - RingRead s)"
    unfolding inside_def by blast
  from move_read_inside(1)[OF 1 2 assms(2)] show ?thesis using c by simp
qed

lemma inside_ordered:
  assumes "inside s s'" "ordered s"
  shows "ordered s'" and "RingRead s \<le> RingRead s'"
proof -
  from assms(1) obtain c where c: "s' = s\<lparr>RingRead := c\<rparr>"
    and 1: "unat (RingWrite s - c) \<le> unat (RingWrite s - RingRead s)"
    and 2: "unat (c - RingRead s) + unat (RingWrite s - c) = unat (RingWrite s - RingRead s)"
    unfolding inside_def by blast
  have o: "RingRead s \<le> RingWrite s" "RingWrite s - RingRead s \<le> RingSize s"
    using assms(2) by (simp_all add: ordered_iff)
  from move_read_inside(2)[OF 1 2 o(1)] move_read_inside(1)[OF 1 2 o(2)]
  show "ordered s'" and "RingRead s \<le> RingRead s'" using c by (simp_all add: ordered_iff)
qed



lemma step_consumer_inside:
  assumes "step s c = Inr s'" "\<forall>p. c \<noteq> CallAppend p"
  shows "inside s s'"
proof (cases c)
  case (CallAppend p) then show ?thesis using assms(2) by simp
next
  case (CallRead n)
  then obtain out k t where "Read s n = Inr (s', out, k, t)"
    using assms(1) by (auto split: sum.splits)
  then show ?thesis by (rule Read_inside)
next
  case (CallJumpToTime t) then show ?thesis using assms(1) JumpToTime_inside by simp
next
  case CallFlush then show ?thesis using assms(1) Flush_inside by auto
qed

lemma step_size: "step s c = Inr s' \<Longrightarrow> RingSize s' = RingSize s"
proof (cases "\<exists>p. c = CallAppend p")
  case True
  assume "step s c = Inr s'"
  with True obtain p where "Append s p = Inr s'" by auto
  from Append_Inr(2)[OF this] show ?thesis by auto
next
  case False
  assume "step s c = Inr s'"
  with False have "inside s s'" using step_consumer_inside by blast
  then show ?thesis by (rule inside_fields)
qed

lemma step_diff:
  assumes "step s c = Inr s'" "RingWrite s - RingRead s \<le> RingSize s"
  shows "RingWrite s' - RingRead s' \<le> RingSize s'"
proof (cases "\<exists>p. c = CallAppend p")
  case True
  with assms(1) obtain p where "Append s p = Inr s'" by auto
  from Append_cursors_of[OF this] obtain s4 pos r
    where a: "Append_cursors s (pkt_bytes s p) (pkt_time p) = (s4, pos)" and s': "s' = s4\<lparr>Ring := r\<rparr>"
    by blast
  from Append_cursors_diff[OF assms(2) a] show ?thesis using s' by simp
next
  case False
  with assms(1) have "inside s s'" using step_consumer_inside by blast
  then show ?thesis using assms(2) by (rule inside_diff)
qed

lemma step_ordered:
  assumes "step s c = Inr s'" "ordered s" "unat (RingSize s) < 2 ^ 31"
  shows "ordered s'"
proof (cases "\<exists>p. c = CallAppend p")
  case True
  with assms(1) obtain p where "Append s p = Inr s'" by auto
  from Append_cursors_of[OF this] obtain s4 pos r
    where a: "Append_cursors s (pkt_bytes s p) (pkt_time p) = (s4, pos)" and s': "s' = s4\<lparr>Ring := r\<rparr>"
    by blast
  have "RingWrite s - RingRead s \<le> RingSize s" using assms(2) by (simp add: ordered_iff)
  from Append_cursors_ordered[OF this assms(3) a] show ?thesis using s' by (simp add: ordered_def)
next
  case False
  with assms(1) have "inside s s'" using step_consumer_inside by blast
  then show ?thesis using assms(2) by (rule inside_ordered)
qed

lemma run_size: "run s cs = Inr s' \<Longrightarrow> RingSize s' = RingSize s"
proof (induction cs arbitrary: s)
  case Nil then show ?case by simp
next
  case (Cons c cs)
  then obtain s1 where 1: "step s c = Inr s1" and 2: "run s1 cs = Inr s'"
    by (auto split: sum.splits)
  from Cons.IH[OF 2] step_size[OF 1] show ?case by simp
qed

lemma run_diff:
  "run s cs = Inr s' \<Longrightarrow> RingWrite s - RingRead s \<le> RingSize s \<Longrightarrow> RingWrite s' - RingRead s' \<le> RingSize s'"
proof (induction cs arbitrary: s)
  case Nil then show ?case by simp
next
  case (Cons c cs)
  then obtain s1 where 1: "step s c = Inr s1" and 2: "run s1 cs = Inr s'"
    by (auto split: sum.splits)
  from Cons.IH[OF 2 step_diff[OF 1 Cons.prems(2)]] show ?case .
qed

lemma run_ordered:
  "run s cs = Inr s' \<Longrightarrow> ordered s \<Longrightarrow> unat (RingSize s) < 2 ^ 31 \<Longrightarrow> ordered s'"
proof (induction cs arbitrary: s)
  case Nil then show ?case by simp
next
  case (Cons c cs)
  then obtain s1 where 1: "step s c = Inr s1" and 2: "run s1 cs = Inr s'"
    by (auto split: sum.splits)
  have "unat (RingSize s1) < 2 ^ 31" using step_size[OF 1] Cons.prems(3) by simp
  from Cons.IH[OF 2 step_ordered[OF 1 Cons.prems(2,3)] this] show ?case .
qed

lemma Negotiate_Inr:
  assumes "Negotiate fmt g = Inr s"
  shows "RingRead s = 0" "RingWrite s = 0" "RingTimePos s = 0" "RingTimeValue s = 0"
    "length (Ring s) = unat (RingSize s)" "RingSize s = SamplesPerSec s * BytesPerSample s"
    "SamplesPerSec s = nSamplesPerSec fmt"
    "wFormatTag fmt = WAVE_FORMAT_EXTENSIBLE" "SubFormat fmt = KSDATAFORMAT_SUBTYPE_IEEE_FLOAT"
  using assms by (auto simp: Negotiate_def Let_def split: if_splits)

subsection \<open>What the consumer calls leave unchanged\<close>




subsection \<open>The time stamp of Read\<close>


lemma unat_add32:
  fixes a b :: uint
  assumes "unat a + unat b < 2 ^ 32"
  shows "unat (a + b) = unat a + unat b"
  using assms unat_add_lem[of a b] by simp




subsection \<open>The bytes that Read returns\<close>

lemma two_segment_read:
  assumes "pos < length ring" "k \<le> length ring"
  shows "take (min k (length ring - pos)) (drop pos ring) @ take (k - min k (length ring - pos)) ring
         = ring_slice ring pos k"
proof (rule nth_equalityI)
  let ?L = "length ring"
  let ?c = "min k (?L - pos)"
  show len: "length (take ?c (drop pos ring) @ take (k - ?c) ring) = length (ring_slice ring pos k)"
    using assms by (auto simp: ring_slice_def min_def)
  fix i assume "i < length (take ?c (drop pos ring) @ take (k - ?c) ring)"
  then have i: "i < k" using len by (simp add: ring_slice_def)
  show "(take ?c (drop pos ring) @ take (k - ?c) ring) ! i = ring_slice ring pos k ! i"
  proof (cases "i < ?c")
    case True
    then have "pos + i < ?L" by (simp add: less_diff_conv add.commute)
    then have "(pos + i) mod ?L = pos + i" by simp
    then show ?thesis using True i assms by (simp add: nth_append ring_slice_def)
  next
    case False
    then have c: "?c = ?L - pos" using i by (simp add: min_def split: if_splits)
    have "?L \<le> pos + i" "pos + i < ?L + ?L" using False c i assms by simp_all
    then have "(pos + i) mod ?L = pos + i - ?L" by (simp add: mod_if)
    moreover have "i - ?c = pos + i - ?L" using c assms by simp
    moreover have "length (take ?c (drop pos ring)) = ?c" using assms by simp
    ultimately show ?thesis using False i assms by (simp add: nth_append ring_slice_def)
  qed
qed

lemma ring_inv_nat:
  assumes "ring_inv s"
  shows "0 < unat (RingSize s)" and "length (Ring s) = unat (RingSize s)"
    and "unat (RingWrite s - RingRead s) \<le> unat (RingSize s)"
    and "unat (RingRead s mod RingSize s) = unat (RingRead s) mod unat (RingSize s)"
    and "unat (RingWrite s mod RingSize s) = unat (RingWrite s) mod unat (RingSize s)"
    and "unat (RingSize s - RingRead s mod RingSize s) = unat (RingSize s) - unat (RingRead s) mod unat (RingSize s)"
    and "unat (RingSize s - RingWrite s mod RingSize s) = unat (RingSize s) - unat (RingWrite s) mod unat (RingSize s)"
proof -
  show 0: "0 < unat (RingSize s)" using assms by (simp add: ring_inv_def unat_gt_0)
  show "length (Ring s) = unat (RingSize s)" using assms by (simp add: ring_inv_def)
  show "unat (RingWrite s - RingRead s) \<le> unat (RingSize s)"
    using assms by (simp add: ring_inv_def word_le_nat_alt)
  show r: "unat (RingRead s mod RingSize s) = unat (RingRead s) mod unat (RingSize s)"
    by (simp add: unat_mod)
  show w: "unat (RingWrite s mod RingSize s) = unat (RingWrite s) mod unat (RingSize s)"
    by (simp add: unat_mod)
  have "unat (RingRead s mod RingSize s) \<le> unat (RingSize s)" using r 0 by (simp add: less_imp_le)
  then have "RingRead s mod RingSize s \<le> RingSize s" by (simp add: word_le_nat_alt)
  then show "unat (RingSize s - RingRead s mod RingSize s) = unat (RingSize s) - unat (RingRead s) mod unat (RingSize s)"
    using r by (simp add: unat_sub)
  have "unat (RingWrite s mod RingSize s) \<le> unat (RingSize s)" using w 0 by (simp add: less_imp_le)
  then have "RingWrite s mod RingSize s \<le> RingSize s" by (simp add: word_le_nat_alt)
  then show "unat (RingSize s - RingWrite s mod RingSize s) = unat (RingSize s) - unat (RingWrite s) mod unat (RingSize s)"
    using w by (simp add: unat_sub)
qed

lemma Read_ok:
  assumes "ring_inv s"
  shows "Read s n =
     Inr (s\<lparr>RingRead := RingRead s + Min_uint n (RingWrite s - RingRead s)\<rparr>,
          ring_slice (Ring s) (unat (RingRead s) mod unat (RingSize s))
            (unat (Min_uint n (RingWrite s - RingRead s))),
          Min_uint n (RingWrite s - RingRead s),
          dadd (RingTimeValue s)
            (ddiv (dsub (real (unat (RingRead s))) (real (unat (RingTimePos s))))
                  (real (unat (BytesPerSample s * SamplesPerSec s)))))"
proof -
  note iv = ring_inv_nat[OF assms]
  let ?L = "unat (RingSize s)"
  let ?k = "Min_uint n (RingWrite s - RingRead s)"
  let ?pos = "RingRead s mod RingSize s"
  let ?c = "Min_uint ?k (RingSize s - ?pos)"
  have k: "unat ?k \<le> ?L" using iv(3) by (simp add: Min_uint_unat)
  have pos: "unat ?pos < ?L" using iv(1,4) by simp
  have c: "unat ?c = min (unat ?k) (?L - unat ?pos)" using iv(4,6) by (simp add: Min_uint_unat)
  have kc: "unat (?k - ?c) = unat ?k - min (unat ?k) (?L - unat ?pos)"
    using iv(4,6) by (simp add: Min_uint_sub)
  have 1: "memcpy_from_ring (Ring s) (unat ?pos) (unat ?c)
            = Inr (take (min (unat ?k) (?L - unat ?pos)) (drop (unat ?pos) (Ring s)))"
    using pos c iv(2) by (simp add: memcpy_from_ring_def)
  have 2: "memcpy_from_ring (Ring s) 0 (unat (?k - ?c))
            = Inr (take (unat ?k - min (unat ?k) (?L - unat ?pos)) (Ring s))"
    using k kc iv(2) by (simp add: memcpy_from_ring_def)
  have 3: "take (min (unat ?k) (?L - unat ?pos)) (drop (unat ?pos) (Ring s))
            @ take (unat ?k - min (unat ?k) (?L - unat ?pos)) (Ring s)
           = ring_slice (Ring s) (unat ?pos) (unat ?k)"
    using two_segment_read[of "unat ?pos" "Ring s" "unat ?k"] pos k iv(2) by simp
  have nz: "RingSize s \<noteq> 0" using assms by (simp add: ring_inv_def)
  show ?thesis
    unfolding Read_def Let_def using nz 1 2 3 iv(4) by simp
qed

text \<open>
  Claim C4. In every state that satisfies the invariant of the ring, and for every
  \<open>maxBytes\<close>, \<open>Read\<close> returns a count \<open>k\<close> that is the smaller of \<open>maxBytes\<close> and
  \<open>RingWrite - RingRead\<close>, stores exactly \<open>k\<close> bytes, which are the bytes of the
  storage from the position \<open>RingRead mod RingSize\<close> on, wrapping at the end, and adds
  \<open>k\<close> to \<open>RingRead\<close>.
\<close>

theorem Read_returns_buffered:
  assumes "ring_inv s"
  shows "\<exists>out k t. Read s n = Inr (s\<lparr>RingRead := RingRead s + k\<rparr>, out, k, t)
           \<and> unat k = min (unat n) (unat (RingWrite s - RingRead s))
           \<and> length out = unat k
           \<and> (\<forall>i < unat k. out ! i = Ring s ! ((unat (RingRead s) mod unat (RingSize s) + i) mod unat (RingSize s)))"
proof -
  let ?k = "Min_uint n (RingWrite s - RingRead s)"
  let ?out = "ring_slice (Ring s) (unat (RingRead s) mod unat (RingSize s)) (unat ?k)"
  have "length ?out = unat ?k" by (simp add: ring_slice_def)
  moreover have "\<forall>i < unat ?k. ?out ! i = Ring s ! ((unat (RingRead s) mod unat (RingSize s) + i) mod unat (RingSize s))"
    using ring_inv_nat(2)[OF assms] by (simp add: ring_slice_def)
  moreover have "unat ?k = min (unat n) (unat (RingWrite s - RingRead s))" by (rule Min_uint_unat)
  ultimately show ?thesis using Read_ok[OF assms, of n] by blast
qed

theorem Read_returns_buffered_witness:
  "ring_inv demo_wrapped
   \<and> Read demo_wrapped 10 = Inr (demo_wrapped\<lparr>RingRead := 12\<rparr>, [3, 4, 1, 2, 3, 4, 5, 6, 7, 8], 10,
            dadd (fl (2 / 5)) (ddiv (dsub 2 4) 10))
   \<and> unat (10 :: uint) = min (unat (10 :: uint)) (unat (RingWrite demo_wrapped - RingRead demo_wrapped))
   \<and> length [3, 4, 1, 2, 3, 4, 5, 6, 7, 8 :: uint8] = unat (10 :: uint)
   \<and> [3, 4, 1, 2, 3, 4, 5, 6, 7, 8 :: uint8] ! 9
       = Ring demo_wrapped ! ((unat (RingRead demo_wrapped) mod unat (RingSize demo_wrapped) + 9)
                              mod unat (RingSize demo_wrapped))"
proof -
  have h: "ring_inv demo_wrapped" by (simp add: ring_inv_def demo_states)
  have r: "Read demo_wrapped 10 = Inr (demo_wrapped\<lparr>RingRead := 12\<rparr>, [3, 4, 1, 2, 3, 4, 5, 6, 7, 8], 10,
            dadd (fl (2 / 5)) (ddiv (dsub 2 4) 10))"
    by (simp add: demo_states model_defs)
  from Read_returns_buffered[OF h, of 10] obtain out k t where
    "Read demo_wrapped 10 = Inr (demo_wrapped\<lparr>RingRead := RingRead demo_wrapped + k\<rparr>, out, k, t)"
    "unat k = min (unat (10 :: uint)) (unat (RingWrite demo_wrapped - RingRead demo_wrapped))"
    "length out = unat k"
    "\<forall>i < unat k. out ! i = Ring demo_wrapped ! ((unat (RingRead demo_wrapped) mod unat (RingSize demo_wrapped) + i) mod unat (RingSize demo_wrapped))"
    by blast
  then have "unat (10 :: uint) = min (unat (10 :: uint)) (unat (RingWrite demo_wrapped - RingRead demo_wrapped))"
    "length [3, 4, 1, 2, 3, 4, 5, 6, 7, 8 :: uint8] = unat (10 :: uint)"
    "[3, 4, 1, 2, 3, 4, 5, 6, 7, 8 :: uint8] ! 9
       = Ring demo_wrapped ! ((unat (RingRead demo_wrapped) mod unat (RingSize demo_wrapped) + 9)
                              mod unat (RingSize demo_wrapped))"
    using r by auto
  then show ?thesis using h r by simp
qed

subsection \<open>Accesses to the storage\<close>

lemma length_store: "off + length ys \<le> length ring \<Longrightarrow> length (store ring off ys) = length ring"
  by (simp add: store_def)

lemma memset_ring_store:
  "off + n \<le> length ring \<Longrightarrow> memset_ring ring off n = Inr (store ring off (replicate n 0))"
  by (simp add: memset_ring_def store_def)

lemma memcpy_to_ring_store:
  "off + n \<le> length ring \<Longrightarrow> n \<le> length src \<Longrightarrow>
   memcpy_to_ring ring off src n = Inr (store ring off (take n src))"
  by (simp add: memcpy_to_ring_def store_def)

lemma length_written: "silent p \<or> unat b \<le> length (data p) \<Longrightarrow> length (written p b) = unat b"
  by (auto simp: written_def)

lemma Append_copy_ok:
  assumes len: "length ring = unat cap" and pos: "unat pos < unat cap"
    and fit: "unat b + unat pos \<le> 2 * unat cap"
    and pay: "silent p \<or> unat b \<le> length (data p)"
  shows "Append_copy ring cap pos b p = Inr (wrap_write ring (unat pos) (written p b))"
proof -
  let ?L = "unat cap" and ?n = "unat b"
  let ?c = "Min_uint b (cap - pos)"
  have "pos \<le> cap" using pos by (simp add: word_le_nat_alt)
  then have cp: "unat (cap - pos) = ?L - unat pos" by (simp add: unat_sub)
  have c: "unat ?c = min ?n (?L - unat pos)" using cp by (simp add: Min_uint_unat)
  have bc: "unat (b - ?c) = ?n - min ?n (?L - unat pos)" using cp by (simp add: Min_uint_sub)
  have 1: "unat pos + unat ?c \<le> length ring" using c pos len by simp
  have 2: "unat (b - ?c) \<le> length ring" using bc fit len by (simp add: min_def split: if_splits)
  have lw: "length (written p b) = ?n" using pay by (rule length_written)
  show ?thesis
  proof (cases "silent p")
    case True
    have t: "take (unat ?c) (written p b) = replicate (unat ?c) 0"
      "drop (unat ?c) (written p b) = replicate (unat (b - ?c)) 0"
      using True c bc by (simp_all add: written_def min_def)
    have l1: "length (store ring (unat pos) (replicate (unat ?c) 0)) = length ring"
      using 1 by (simp add: length_store)
    have "Append_copy ring cap pos b p
          = Inr (store (store ring (unat pos) (replicate (unat ?c) 0)) 0 (replicate (unat (b - ?c)) 0))"
      using True 1 2 l1 unfolding Append_copy_def Let_def silent_def
      by (simp add: memset_ring_store)
    then show ?thesis unfolding wrap_write_def Let_def using t c lw len by simp
  next
    case False
    then have dl: "?n \<le> length (data p)" using pay by simp
    have t: "take (unat ?c) (written p b) = take (unat ?c) (data p)"
      "drop (unat ?c) (written p b) = take (unat (b - ?c)) (drop (unat ?c) (data p))"
      using False c bc by (simp_all add: written_def min_def take_drop)
    have l1: "length (store ring (unat pos) (take (unat ?c) (data p))) = length ring"
      using 1 dl c by (simp add: length_store)
    have s1: "unat ?c \<le> length (data p)" using c dl by simp
    have "?n - min ?n (?L - unat pos) \<le> length (data p) - min ?n (?L - unat pos)"
      using dl by arith
    then have s2: "unat (b - ?c) \<le> length (drop (unat ?c) (data p))" using bc c by simp
    have "Append_copy ring cap pos b p
          = Inr (store (store ring (unat pos) (take (unat ?c) (data p))) 0
                   (take (unat (b - ?c)) (drop (unat ?c) (data p))))"
      using False 1 2 l1 s1 s2 unfolding Append_copy_def Let_def silent_def
      by (simp add: memcpy_to_ring_store)
    then show ?thesis unfolding wrap_write_def Let_def using t c lw len by simp
  qed
qed

lemma Append_copy_fault:
  assumes len: "length ring = unat cap" and pos: "unat pos < unat cap"
    and big: "2 * unat cap < unat b + unat pos"
    and pay: "silent p \<or> unat b \<le> length (data p)"
  shows "Append_copy ring cap pos b p = Inl OutOfBounds"
proof -
  let ?L = "unat cap" and ?n = "unat b"
  let ?c = "Min_uint b (cap - pos)"
  have "pos \<le> cap" using pos by (simp add: word_le_nat_alt)
  then have cp: "unat (cap - pos) = ?L - unat pos" by (simp add: unat_sub)
  have c: "unat ?c = ?L - unat pos" using cp big pos by (simp add: Min_uint_unat)
  have bc: "unat (b - ?c) = ?n - (?L - unat pos)" using cp big pos by (simp add: Min_uint_sub)
  have 1: "unat pos + unat ?c \<le> length ring" using c pos len by simp
  have 2: "\<not> unat (b - ?c) \<le> length ring" using bc big len pos by simp
  show ?thesis
  proof (cases "silent p")
    case True
    have l1: "length (store ring (unat pos) (replicate (unat ?c) 0)) = length ring"
      using 1 by (simp add: length_store)
    show ?thesis
      using True 1 2 l1 unfolding Append_copy_def Let_def silent_def
      by (simp add: memset_ring_store) (simp add: memset_ring_def)
  next
    case False
    then have dl: "?n \<le> length (data p)" using pay by simp
    have s1: "unat ?c \<le> length (data p)" using c dl big by simp
    have l1: "length (store ring (unat pos) (take (unat ?c) (data p))) = length ring"
      using 1 s1 by (simp add: length_store)
    show ?thesis
      using False 1 2 l1 s1 unfolding Append_copy_def Let_def silent_def
      by (simp add: memcpy_to_ring_store) (simp add: memcpy_to_ring_def)
  qed
qed

lemma length_wrap_write:
  assumes "pos < length ring" "length xs + pos \<le> 2 * length ring"
  shows "length (wrap_write ring pos xs) = length ring"
proof -
  let ?c = "min (length xs) (length ring - pos)"
  have 1: "length (store ring pos (take ?c xs)) = length ring"
    using assms by (simp add: length_store)
  have "length xs - ?c \<le> length ring" using assms by arith
  then have "length (drop ?c xs) \<le> length ring" by simp
  then show ?thesis unfolding wrap_write_def Let_def using 1 by (simp add: length_store)
qed

lemma Append_ok:
  assumes "ring_inv s" "payload_ok s p" "fits s p"
  shows "Append s p =
     Inr (s\<lparr>RingRead := RingRead s + dropped s (pkt_bytes s p) - rebase s (pkt_bytes s p),
            RingWrite := RingWrite s + pkt_bytes s p - rebase s (pkt_bytes s p),
            RingTimePos := RingWrite s - rebase s (pkt_bytes s p),
            RingTimeValue := pkt_time p,
            Ring := wrap_write (Ring s) (unat (RingWrite s) mod unat (RingSize s)) (written p (pkt_bytes s p))\<rparr>)"
proof -
  note iv = ring_inv_nat[OF assms(1)]
  have nz: "RingSize s \<noteq> 0" using assms(1) by (simp add: ring_inv_def)
  have pos: "unat (RingWrite s mod RingSize s) < unat (RingSize s)" using iv(1,5) by simp
  have "Append_copy (Ring s) (RingSize s) (RingWrite s mod RingSize s) (pkt_bytes s p) p
        = Inr (wrap_write (Ring s) (unat (RingWrite s mod RingSize s)) (written p (pkt_bytes s p)))"
    using iv(2) pos assms(2,3) unfolding payload_ok_def fits_def
    by (intro Append_copy_ok) (simp_all add: iv(5))
  then show ?thesis using nz by (simp add: Append_def Append_cursors_eq Let_def iv(5))
qed

lemma Append_fault:
  assumes "ring_inv s" "payload_ok s p" "\<not> fits s p"
  shows "Append s p = Inl OutOfBounds"
proof -
  note iv = ring_inv_nat[OF assms(1)]
  have nz: "RingSize s \<noteq> 0" using assms(1) by (simp add: ring_inv_def)
  have pos: "unat (RingWrite s mod RingSize s) < unat (RingSize s)" using iv(1,5) by simp
  have "Append_copy (Ring s) (RingSize s) (RingWrite s mod RingSize s) (pkt_bytes s p) p
        = Inl OutOfBounds"
    using iv(2) pos assms(2,3) unfolding payload_ok_def fits_def
    by (intro Append_copy_fault) (simp_all add: iv(5))
  then show ?thesis using nz by (simp add: Append_def Append_cursors_eq Let_def)
qed

lemma Negotiate_ring_inv:
  assumes "Negotiate fmt g = Inr s" "RingSize s \<noteq> 0"
  shows "ring_inv s"
  using Negotiate_Inr[OF assms(1)] assms(2) by (simp add: ring_inv_def)

lemma step_length_Ring:
  assumes "step s c = Inr s'" "length (Ring s) = unat (RingSize s)"
  shows "length (Ring s') = unat (RingSize s')"
proof (cases "\<exists>p. c = CallAppend p")
  case True
  with assms(1) obtain p where a: "Append s p = Inr s'" by auto
  from Append_Inr(2)[OF a] obtain r where
    r: "Append_copy (Ring s) (RingSize s) (RingWrite s mod RingSize s) (pkt_bytes s p) p = Inr r"
    and s': "Ring s' = r" "RingSize s' = RingSize s" by auto
  have "length r = length (Ring s)"
    using r unfolding Append_copy_def Let_def memset_ring_def memcpy_to_ring_def
    by (auto split: if_splits sum.splits)
  then show ?thesis using s' assms(2) by simp
next
  case False
  with assms(1) have "inside s s'" using step_consumer_inside by blast
  from inside_fields[OF this] show ?thesis using assms(2) by simp
qed

lemma step_ring_inv:
  assumes "step s c = Inr s'" "ring_inv s"
  shows "ring_inv s'"
  using step_size[OF assms(1)] step_diff[OF assms(1)] step_length_Ring[OF assms(1)] assms(2)
  by (simp add: ring_inv_def)

lemma run_ring_inv: "run s cs = Inr s' \<Longrightarrow> ring_inv s \<Longrightarrow> ring_inv s'"
proof (induction cs arbitrary: s)
  case Nil then show ?case by simp
next
  case (Cons c cs)
  then obtain s1 where 1: "step s c = Inr s1" and 2: "run s1 cs = Inr s'"
    by (auto split: sum.splits)
  from Cons.IH[OF 2 step_ring_inv[OF 1 Cons.prems(2)]] show ?case .
qed

text \<open>
  Claim C2 as stated fails: a packet of 25 bytes, appended to the empty ring of 10 bytes,
  has a second segment \<open>memset (Ring, 0, 15)\<close> that leaves the storage.
\<close>

theorem ring_accesses_in_bounds_counterexample:
  "Append demo_start (silent_packet 25 0) = Inl OutOfBounds"
  by (simp add: demo_defs demo_states model_defs)

text \<open>
  Claim C2, amended. In every state that the public operations reach from the
  constructor's state (with a ring of non-zero size), every \<open>Read\<close> accesses the storage
  inside its bounds, for every \<open>maxBytes\<close>; and an \<open>Append\<close> does so exactly when its
  length is at most \<open>2 * RingSize - RingWrite mod RingSize\<close>, which every packet of at
  most \<open>RingSize\<close> bytes satisfies. A longer packet writes beyond the end of the storage.
\<close>

theorem ring_accesses_in_bounds:
  assumes "Negotiate fmt g = Inr s0" and "RingSize s0 \<noteq> 0" and "run s0 cs = Inr s"
  shows "(\<exists>r. Read s n = Inr r)
       \<and> (payload_ok s p \<longrightarrow>
            (if unat (pkt_bytes s p) + unat (RingWrite s) mod unat (RingSize s) \<le> 2 * unat (RingSize s)
             then \<exists>s'. Append s p = Inr s'
             else Append s p = Inl OutOfBounds))"
proof -
  have iv: "ring_inv s" using run_ring_inv[OF assms(3) Negotiate_ring_inv[OF assms(1,2)]] .
  have "\<exists>r. Read s n = Inr r" using Read_ok[OF iv, of n] by simp
  moreover have "payload_ok s p \<Longrightarrow> fits s p \<Longrightarrow> \<exists>s'. Append s p = Inr s'"
    using Append_ok[OF iv] by simp
  moreover have "payload_ok s p \<Longrightarrow> \<not> fits s p \<Longrightarrow> Append s p = Inl OutOfBounds"
    using Append_fault[OF iv] by simp
  ultimately show ?thesis unfolding fits_def by auto
qed

theorem ring_accesses_in_bounds_witness:
  "Negotiate demo_format (\<lambda>_. 7) = Inr demo_start \<and> RingSize demo_start \<noteq> 0
   \<and> run demo_start [CallAppend (demo_packet [1, 2, 3, 4] 0 0),
                     CallAppend (demo_packet [1, 2, 3, 4, 5, 6, 7, 8] 0 4000000)] = Inr demo_wrapped
   \<and> unat (pkt_bytes demo_wrapped (demo_packet [1, 2, 3, 4, 5, 6, 7, 8] 0 12000000))
       \<le> length (data (demo_packet [1, 2, 3, 4, 5, 6, 7, 8] 0 12000000))
   \<and> (\<exists>r. Read demo_wrapped 10 = Inr r)
   \<and> (\<exists>s'. Append demo_wrapped (demo_packet [1, 2, 3, 4, 5, 6, 7, 8] 0 12000000) = Inr s')"
proof -
  have nz: "RingSize demo_start \<noteq> 0" by (simp add: demo_defs)
  have pay: "payload_ok demo_wrapped (demo_packet [1, 2, 3, 4, 5, 6, 7, 8] 0 12000000)"
    by (simp add: payload_ok_def pkt_bytes_def demo_defs demo_states)
  from ring_accesses_in_bounds[OF demo_Negotiate nz demo_run_wrapped,
      of 10 "demo_packet [1, 2, 3, 4, 5, 6, 7, 8] 0 12000000"]
  show ?thesis using demo_Negotiate nz demo_run_wrapped pay
    by (simp add: pkt_bytes_def demo_defs demo_states)
qed

subsection \<open>The order of the cursors\<close>

lemma giant_Negotiate: "Negotiate giant_format (\<lambda>_. 0) = Inr giant_start"
  by (simp add: giant_format_def giant_start_def Negotiate_def WAVE_FORMAT_EXTENSIBLE_def
      KSDATAFORMAT_SUBTYPE_IEEE_FLOAT_def Let_def)

lemma giant_run:
  "\<exists>r. run giant_start [CallAppend giant_silence, CallAppend giant_silence]
        = Inr (giant_start\<lparr>RingRead := 2147483632, RingWrite := 0, RingTimePos := 2147483648,
                            Ring := r\<rparr>)"
proof -
  have p: "payload_ok s giant_silence" for s
    by (simp add: payload_ok_def silent_def giant_silence_def AUDCLNT_BUFFERFLAGS_SILENT_def)
  have t: "pkt_time giant_silence = 0"
    by (simp add: pkt_time_def giant_silence_def double_defs)
  have i0: "ring_inv giant_start"
    by (simp add: ring_inv_def giant_start_def)
  have f0: "fits giant_start giant_silence"
    by (simp add: fits_def pkt_bytes_def giant_start_def giant_silence_def)
  define r1 where "r1 = wrap_write (Ring giant_start)
      (unat (RingWrite giant_start) mod unat (RingSize giant_start))
      (written giant_silence (pkt_bytes giant_start giant_silence))"
  define s1 where "s1 = giant_start\<lparr>RingWrite := 2147483648, Ring := r1\<rparr>"
  have a1: "Append giant_start giant_silence = Inr s1"
    unfolding Append_ok[OF i0 p f0] s1_def r1_def t
    by (simp add: giant_start_def giant_silence_def pkt_bytes_def dropped_def rebase_def)
  have i1: "ring_inv s1"
    using step_ring_inv[of giant_start "CallAppend giant_silence" s1] a1 i0 by simp
  have f1: "fits s1 giant_silence"
    by (simp add: fits_def pkt_bytes_def s1_def giant_start_def giant_silence_def)
  have a2: "Append s1 giant_silence
            = Inr (giant_start\<lparr>RingRead := 2147483632, RingWrite := 0, RingTimePos := 2147483648,
                     Ring := wrap_write (Ring s1) (unat (RingWrite s1) mod unat (RingSize s1))
                               (written giant_silence (pkt_bytes s1 giant_silence))\<rparr>)"
    unfolding Append_ok[OF i1 p f1] t
    by (simp add: s1_def giant_start_def giant_silence_def pkt_bytes_def dropped_def rebase_def)
  show ?thesis
    using a1 a2 by auto
qed

text \<open>
  Claim C1 as stated fails for the second form of the bound. The ring has
  \<open>2^31 + 16\<close> bytes; after two packets of \<open>2^31\<close> bytes, both stored inside the
  storage, the write cursor has wrapped around \<open>2^32\<close> to 0 and the read cursor is
  \<open>2^31 - 16\<close>: the \<open>uint\<close> difference is the size of the ring, but the read cursor is
  beyond the write cursor.
\<close>

theorem cursors_within_capacity_counterexample:
  "Negotiate giant_format (\<lambda>_. 0) = Inr giant_start
   \<and> \<not> isl (run giant_start [CallAppend giant_silence, CallAppend giant_silence])
   \<and> RingRead (projr (run giant_start [CallAppend giant_silence, CallAppend giant_silence]))
       = 2147483632
   \<and> RingWrite (projr (run giant_start [CallAppend giant_silence, CallAppend giant_silence])) = 0
   \<and> RingSize (projr (run giant_start [CallAppend giant_silence, CallAppend giant_silence]))
       = 2147483664
   \<and> \<not> (2147483632 :: uint) \<le> 0"
  using giant_Negotiate giant_run by (auto simp: giant_start_def)

text \<open>
  Claim C1, amended. From the state that the constructor builds, after every sequence of
  Append, Read, JumpToTime and Flush calls (so in particular after each Append) the
  difference \<open>RingWrite - RingRead\<close>, computed in \<open>uint\<close> as the code does, is at most
  \<open>RingSize\<close>, the bound being restored on overflow by advancing \<open>RingRead\<close>; and
  when the size of the ring is below \<open>2^31\<close> bytes no cursor has wrapped:
  \<open>RingRead \<le> RingWrite \<le> RingRead + RingSize\<close> as numbers.
\<close>

theorem cursors_within_capacity:
  assumes "Negotiate fmt g = Inr s0" and "run s0 cs = Inr s"
  shows "RingWrite s - RingRead s \<le> RingSize s
         \<and> (unat (RingSize s) < 2 ^ 31 \<longrightarrow>
              unat (RingRead s) \<le> unat (RingWrite s)
              \<and> unat (RingWrite s) \<le> unat (RingRead s) + unat (RingSize s))"
proof -
  have 0: "RingWrite s0 - RingRead s0 \<le> RingSize s0" "ordered s0"
    using Negotiate_Inr[OF assms(1)] by (simp_all add: ordered_def)
  have sz: "RingSize s = RingSize s0" using assms(2) by (rule run_size)
  have "RingWrite s - RingRead s \<le> RingSize s" using assms(2) 0(1) by (rule run_diff)
  moreover have "unat (RingSize s) < 2 ^ 31 \<Longrightarrow> ordered s"
    using run_ordered[OF assms(2) 0(2)] sz by simp
  ultimately show ?thesis by (auto simp: ordered_def)
qed

theorem cursors_within_capacity_witness:
  "Negotiate demo_format (\<lambda>_. 7) = Inr demo_start
   \<and> run demo_start [CallAppend (demo_packet [1, 2, 3, 4] 0 0), CallRead 3,
        CallJumpToTime 1, CallAppend (demo_packet [1, 2, 3, 4, 5, 6, 7, 8] 0 4000000),
        CallAppend (demo_packet [1, 2, 3, 4, 5, 6, 7, 8] 2 12000000), CallFlush]
       = Inr \<lparr>Ring = [7, 8, 0, 0, 0, 0, 0, 0, 0, 0], RingSize = 10, RingRead = 20,
              RingWrite = 20, RingTimePos = 12, RingTimeValue = fl (6 / 5),
              BytesPerSample = 1, SamplesPerSec = 10\<rparr>
   \<and> (20 :: uint) - 20 \<le> 10
   \<and> unat (20 :: uint) \<le> unat (20 :: uint) \<and> unat (20 :: uint) \<le> unat (20 :: uint) + unat (10 :: uint)"
proof -
  have h2: "run demo_start [CallAppend (demo_packet [1, 2, 3, 4] 0 0), CallRead 3,
        CallJumpToTime 1, CallAppend (demo_packet [1, 2, 3, 4, 5, 6, 7, 8] 0 4000000),
        CallAppend (demo_packet [1, 2, 3, 4, 5, 6, 7, 8] 2 12000000), CallFlush]
       = Inr \<lparr>Ring = [7, 8, 0, 0, 0, 0, 0, 0, 0, 0], RingSize = 10, RingRead = 20,
              RingWrite = 20, RingTimePos = 12, RingTimeValue = fl (6 / 5),
              BytesPerSample = 1, SamplesPerSec = 10\<rparr>"
    by (simp add: demo_defs model_defs double_defs)
  from cursors_within_capacity[OF demo_Negotiate h2] show ?thesis
    using demo_Negotiate h2 by simp
qed

subsection \<open>The format check of the constructor\<close>

lemma Negotiate_assert:
  "Negotiate fmt g = Inl AssertionFailed \<longleftrightarrow> \<not> float_extensible fmt"
  by (simp add: Negotiate_def float_extensible_def Let_def)

lemma Negotiate_proceeds:
  assumes "float_extensible fmt" "uint (nChannels fmt) * uint (wBitsPerSample fmt) < 2 ^ 31"
  shows "\<exists>s. Negotiate fmt g = Inr s
           \<and> BytesPerSample s = word_of_int (uint (nChannels fmt) * uint (wBitsPerSample fmt) div 8)
           \<and> RingSize s = nSamplesPerSec fmt * BytesPerSample s"
  using assms by (simp add: Negotiate_def float_extensible_def Let_def)

lemma uint16_bound: "uint (w :: WORD) < 65536"
  using uint_bounded[of w] by simp

text \<open>
  Claim C9 as stated fails in both directions: a 64-bit float format with the extensible
  header is not 32-bit float and passes the assertion, and a 32-bit float format with the
  plain tag is 32-bit float and fails it.
\<close>

theorem negotiation_float_check_counterexample:
  "\<not> is_float32 float64_format
   \<and> \<not> isl (Negotiate float64_format (\<lambda>_. 0))
   \<and> is_float32 plain_float32_format
   \<and> Negotiate plain_float32_format (\<lambda>_. 0) = Inl AssertionFailed"
proof -
  have 1: "\<not> is_float32 float64_format" by (simp add: format_defs)
  have "float_extensible float64_format" by (simp add: format_defs)
  moreover have "uint (nChannels float64_format) * uint (wBitsPerSample float64_format) < 2 ^ 31"
    by (simp add: format_defs)
  ultimately have "\<exists>s. Negotiate float64_format (\<lambda>_. 0) = Inr s"
    using Negotiate_proceeds by blast
  then have 2: "\<not> isl (Negotiate float64_format (\<lambda>_. 0))" by auto
  have 3: "is_float32 plain_float32_format" by (simp add: format_defs)
  have "\<not> float_extensible plain_float32_format" by (simp add: format_defs)
  then have 4: "Negotiate plain_float32_format (\<lambda>_. 0) = Inl AssertionFailed"
    by (simp add: Negotiate_assert)
  from 1 2 3 4 show ?thesis by simp
qed

text \<open>
  Claim C9, amended. Negotiation aborts with the failed assertion exactly when the native
  format is not tagged \<open>WAVE_FORMAT_EXTENSIBLE\<close> with the IEEE float sub-format; the width
  of the samples is not examined. A 32-bit float format described in this way proceeds,
  with four bytes per channel in a sample frame and a ring of one second.
\<close>

theorem negotiation_float_check:
  "(Negotiate fmt g = Inl AssertionFailed \<longleftrightarrow> \<not> float_extensible fmt)
   \<and> (float_extensible fmt \<and> wBitsPerSample fmt = 32 \<longrightarrow>
        (\<exists>s. Negotiate fmt g = Inr s \<and> BytesPerSample s = 4 * ucast (nChannels fmt)
              \<and> RingSize s = nSamplesPerSec fmt * BytesPerSample s))"
proof -
  have "\<exists>s. Negotiate fmt g = Inr s \<and> BytesPerSample s = 4 * ucast (nChannels fmt)
              \<and> RingSize s = nSamplesPerSec fmt * BytesPerSample s"
    if f: "float_extensible fmt" and b: "wBitsPerSample fmt = 32"
  proof -
    have u: "uint (nChannels fmt) * uint (wBitsPerSample fmt) = uint (nChannels fmt) * 32"
      using b by simp
    have "uint (nChannels fmt) * uint (wBitsPerSample fmt) < 2 ^ 31"
      using uint16_bound[of "nChannels fmt"] unfolding u by simp
    from Negotiate_proceeds[OF f this, of g] obtain s where
      s: "Negotiate fmt g = Inr s"
         "BytesPerSample s = word_of_int (uint (nChannels fmt) * uint (wBitsPerSample fmt) div 8)"
         "RingSize s = nSamplesPerSec fmt * BytesPerSample s" by blast
    have "uint (nChannels fmt) * 32 div 8 = 4 * uint (nChannels fmt)" by simp
    then have "BytesPerSample s = word_of_int (4 * uint (nChannels fmt))" using s(2) u by simp
    also have "\<dots> = 4 * ucast (nChannels fmt)"
      by (simp only: ucast_eq of_int_mult of_int_numeral)
    finally show ?thesis using s by blast
  qed
  then show ?thesis using Negotiate_assert by blast
qed

theorem negotiation_float_check_witness:
  "float_extensible float32_format \<and> wBitsPerSample float32_format = 32
   \<and> (\<exists>s. Negotiate float32_format (\<lambda>_. 0) = Inr s \<and> BytesPerSample s = 8 \<and> RingSize s = 384000)"
proof -
  have h: "float_extensible float32_format \<and> wBitsPerSample float32_format = 32"
    by (simp add: format_defs)
  from negotiation_float_check[of float32_format "\<lambda>_. 0"] h
  obtain s where s: "Negotiate float32_format (\<lambda>_. 0) = Inr s"
    "BytesPerSample s = 4 * ucast (nChannels float32_format)"
    "RingSize s = nSamplesPerSec float32_format * BytesPerSample s" by blast
  have "BytesPerSample s = 8" using s(2) by (simp add: float32_format_def)
  moreover from this have "RingSize s = 384000" using s(3) by (simp add: float32_format_def)
  ultimately show ?thesis using h s(1) by blast
qed

subsection \<open>The storage after the two segments of Append\<close>

lemma nth_store:
  assumes "off + length ys \<le> length ring" "j < length ring"
  shows "store ring off ys ! j = (if off \<le> j \<and> j < off + length ys then ys ! (j - off) else ring ! j)"
proof -
  have lt: "length (take off ring) = off" using assms(1) by simp
  show ?thesis
  proof (cases "j < off")
    case True
    then show ?thesis using lt by (simp add: store_def nth_append)
  next
    case False
    then have 1: "store ring off ys ! j = (ys @ drop (off + length ys) ring) ! (j - off)"
      using lt by (simp add: store_def nth_append)
    show ?thesis
    proof (cases "j < off + length ys")
      case True
      then have "j - off < length ys" using False by arith
      then show ?thesis using False True 1 by (simp add: nth_append)
    next
      case F2: False
      then have n: "\<not> j - off < length ys" using False by arith
      have e: "off + length ys + (j - off - length ys) = j" using False F2 by arith
      have "(ys @ drop (off + length ys) ring) ! (j - off)
            = drop (off + length ys) ring ! (j - off - length ys)"
        using n by (simp add: nth_append)
      also have "\<dots> = ring ! (off + length ys + (j - off - length ys))"
        using assms(1) by (simp only: nth_drop)
      finally show ?thesis using 1 F2 e by simp
    qed
  qed
qed

lemma nth_wrap_write:
  assumes "pos < length ring" "length xs + pos \<le> 2 * length ring" "j < length ring"
  shows "wrap_write ring pos xs ! j =
     (if j < length xs - min (length xs) (length ring - pos)
      then xs ! (min (length xs) (length ring - pos) + j)
      else if pos \<le> j \<and> j < pos + min (length xs) (length ring - pos)
      then xs ! (j - pos) else ring ! j)"
proof -
  let ?c = "min (length xs) (length ring - pos)"
  have lc: "length (take ?c xs) = ?c" by simp
  have l1: "pos + length (take ?c xs) \<le> length ring" using assms(1) by simp
  have len1: "length (store ring pos (take ?c xs)) = length ring" using l1 by (rule length_store)
  have "length xs - ?c \<le> length ring" using assms by arith
  then have l2: "0 + length (drop ?c xs) \<le> length (store ring pos (take ?c xs))"
    using len1 by simp
  have j1: "j < length (store ring pos (take ?c xs))" using len1 assms(3) by simp
  have w0: "wrap_write ring pos xs = store (store ring pos (take ?c xs)) 0 (drop ?c xs)"
    by (simp only: wrap_write_def Let_def)
  have ld: "length (drop ?c xs) = length xs - ?c" by simp
  have w: "wrap_write ring pos xs ! j
        = (if 0 \<le> j \<and> j < 0 + (length xs - ?c) then drop ?c xs ! (j - 0)
           else store ring pos (take ?c xs) ! j)"
    unfolding w0 using nth_store[OF l2 j1] unfolding ld .
  have s: "store ring pos (take ?c xs) ! j
        = (if pos \<le> j \<and> j < pos + ?c then take ?c xs ! (j - pos) else ring ! j)"
    using nth_store[OF l1 assms(3)] unfolding lc .
  show ?thesis
  proof (cases "j < length xs - ?c")
    case True
    then have "wrap_write ring pos xs ! j = drop ?c xs ! j" unfolding w
      by (simp only: le0 add_0 diff_zero simp_thms if_True)
    also have "\<dots> = xs ! (?c + j)" by (simp only: nth_drop)
    finally show ?thesis using True by (simp only: simp_thms if_True if_False)
  next
    case False
    then have 1: "wrap_write ring pos xs ! j = store ring pos (take ?c xs) ! j"
      unfolding w by (simp only: le0 add_0 diff_zero simp_thms if_False)
    show ?thesis
    proof (cases "pos \<le> j \<and> j < pos + ?c")
      case True
      then have "j - pos < ?c" by arith
      then have "take ?c xs ! (j - pos) = xs ! (j - pos)" by (rule nth_take)
      then have "wrap_write ring pos xs ! j = xs ! (j - pos)" using 1 s True by (simp only: simp_thms if_True if_False)
      then show ?thesis using True False by (simp only: simp_thms if_True if_False)
    next
      case F2: False
      then have "wrap_write ring pos xs ! j = ring ! j" using 1 s by (simp only: simp_thms if_True if_False)
      then show ?thesis using F2 False by (simp only: simp_thms if_True if_False)
    qed
  qed
qed

lemma dvd_add_mod: "(L::nat) dvd Q \<Longrightarrow> (Q + y) mod L = y mod L"
  by (auto simp: dvd_def)

lemma mod_window_eq:
  assumes "(a::nat) mod L = b mod L" "a \<le> b" "b < a + L"
  shows "a = b"
proof -
  have "L dvd b - a" using assms(1,2) by (metis mod_eq_dvd_iff_nat)
  moreover have "b - a < L" using assms(2,3) by arith
  ultimately have "b - a = 0" by (meson dvd_imp_le not_less zero_less_iff_neq_zero)
  then show ?thesis using assms(2) by simp
qed

lemma seg_first:
  fixes i n L p :: nat
  assumes "i < n" "n \<le> i + L" "p + i < L"
  shows "\<not> p + i < n - min n (L - p)" and "p \<le> p + i \<and> p + i < p + min n (L - p)"
  using assms by (auto simp: min_def)

lemma seg_second:
  fixes i n L p :: nat
  assumes "i < n" "\<not> p + i < L" "p < L"
  shows "p + i - L < n - min n (L - p)" and "min n (L - p) + (p + i - L) = i"
  using assms by (auto simp: min_def)

lemma seg_before:
  fixes m n L p :: nat
  assumes "0 < m" "m + n \<le> L" "p < L" "m \<le> p"
  shows "\<not> p - m < n - min n (L - p)" and "\<not> (p \<le> p - m \<and> p - m < p + min n (L - p))"
  using assms by (auto simp: min_def)

lemma seg_after:
  fixes m n L p :: nat
  assumes "m + n \<le> L" "p < L" "p < m"
  shows "\<not> p + L - m < n - min n (L - p)" and "\<not> (p \<le> p + L - m \<and> p + L - m < p + min n (L - p))"
  using assms by (auto simp: min_def)

lemma wrap_write_window:
  assumes L: "0 < length ring" and fit: "length xs + w mod length ring \<le> 2 * length ring"
    and x1: "x < w + length xs" and x2: "w + length xs \<le> x + length ring"
  shows "wrap_write ring (w mod length ring) xs ! (x mod length ring)
         = (if w \<le> x then xs ! (x - w) else ring ! (x mod length ring))"
proof -
  define L' where "L' = length ring"
  define n where "n = length xs"
  define p where "p = w mod L'"
  define j where "j = x mod L'"
  define Q where "Q = w - p"
  have pos: "p < L'" and jL: "j < L'" using L unfolding p_def j_def L'_def by simp_all
  have fit': "n + p \<le> 2 * L'" using fit unfolding n_def p_def L'_def .
  have nw: "wrap_write ring p xs ! j =
     (if j < n - min n (L' - p) then xs ! (min n (L' - p) + j)
      else if p \<le> j \<and> j < p + min n (L' - p) then xs ! (j - p) else ring ! j)"
    using nth_wrap_write[of p ring xs j] pos fit' jL unfolding n_def L'_def by simp
  have "p \<le> w" unfolding p_def by simp
  then have Qw: "w = Q + p" unfolding Q_def by simp
  have Qd: "L' dvd Q" unfolding Q_def p_def by (rule dvd_minus_mod)
  have x1': "x < w + n" and x2': "w + n \<le> x + L'" using x1 x2 unfolding n_def L'_def .
  have goal: "wrap_write ring p xs ! j = (if w \<le> x then xs ! (x - w) else ring ! j)"
  proof (cases "w \<le> x")
    case True
    define i where "i = x - w"
    have xi: "x = w + i" using True unfolding i_def by simp
    have i: "i < n" "n \<le> i + L'" using x1' x2' unfolding xi by simp_all
    have "x = Q + (p + i)" unfolding xi using Qw by simp
    then have jm: "j = (p + i) mod L'" unfolding j_def using dvd_add_mod[OF Qd] by simp
    show ?thesis
    proof (cases "p + i < L'")
      case T2: True
      then have jeq: "j = p + i" using jm by simp
      have "wrap_write ring p xs ! j = xs ! (j - p)"
        using nw seg_first[OF i T2] unfolding jeq by (simp only: simp_thms if_True if_False)
      also have "j - p = x - w" unfolding jeq i_def by simp
      finally show ?thesis using True by (simp only: if_True)
    next
      case F2: False
      have "p + i < L' + L'" using i(1) fit' by simp
      then have jeq: "j = p + i - L'" using jm F2 by (simp add: mod_if)
      have "wrap_write ring p xs ! j = xs ! (min n (L' - p) + j)"
        using nw seg_second(1)[OF i(1) F2 pos] unfolding jeq by (simp only: simp_thms if_True if_False)
      also have "min n (L' - p) + j = x - w" unfolding jeq i_def[symmetric] by (rule seg_second(2)[OF i(1) F2 pos])
      finally show ?thesis using True by (simp only: if_True)
    qed
  next
    case False
    define m where "m = w - x"
    have wm: "w = x + m" using False unfolding m_def by simp
    have m: "0 < m" "m + n \<le> L'" using False x2' unfolding wm by simp_all
    have "wrap_write ring p xs ! j = ring ! j"
    proof (cases "m \<le> p")
      case True
      have "x + m = Q + p" using Qw wm by simp
      then have "x = Q + (p - m)" using True by simp
      then have "j = (p - m) mod L'" unfolding j_def using dvd_add_mod[OF Qd] by simp
      then have jeq: "j = p - m" using pos by simp
      show ?thesis
        using nw seg_before[OF m pos True] unfolding jeq by (simp only: simp_thms if_True if_False)
    next
      case F3: False
      then have pm: "p < m" by simp
      have Qm: "x + m = Q + p" using Qw wm by simp
      then have "0 < Q" using pm by simp
      then have LQ: "L' \<le> Q" using Qd by (simp add: dvd_imp_le)
      have d2: "L' dvd Q - L'" using Qd by simp
      have "m \<le> L'" using m(2) by simp
      then have "x = (Q - L') + (p + L' - m)" using LQ Qm pm by simp
      then have "j = (p + L' - m) mod L'" unfolding j_def using dvd_add_mod[OF d2] by simp
      moreover have "p + L' - m < L'" using pm m by simp
      ultimately have jeq: "j = p + L' - m" by simp
      show ?thesis
        using nw seg_after[OF m(2) pos pm] unfolding jeq by (simp only: simp_thms if_True if_False)
    qed
    then show ?thesis using False by (simp only: if_False)
  qed
  then show ?thesis unfolding p_def j_def L'_def .
qed

subsection \<open>Append drops the oldest bytes\<close>

lemma overflow_arith:
  fixes L d n :: nat
  assumes "d \<le> L"
  shows "(if L - d < n then n - (L - d) else 0) = d + n - L"
  using assms by auto

lemma rebase_le_write:
  fixes L r w n e :: nat
  assumes "r \<le> w" "w \<le> r + L" "e = w - r + n - L" "L < r + e" "w < L \<longrightarrow> n + w \<le> 2 * L"
  shows "L \<le> w"
  using assms by auto

lemma Append_nat:
  assumes wf: "ring_wf s" and fit: "fits s p"
  defines "b \<equiv> pkt_bytes s p"
  defines "L \<equiv> unat (RingSize s)" and "r \<equiv> unat (RingRead s)" and "w \<equiv> unat (RingWrite s)"
  defines "n \<equiv> unat b"
  defines "e \<equiv> w - r + n - L"
  defines "sh \<equiv> (if L < r + e then L else 0)"
  shows "unat (dropped s b) = e" and "unat (rebase s b) = sh"
    and "sh \<le> r + e" and "sh \<le> w"
    and "unat (RingRead s + dropped s b - rebase s b) = r + e - sh"
    and "unat (RingWrite s + b - rebase s b) = w + n - sh"
    and "unat (RingWrite s - rebase s b) = w - sh"
    and "n \<le> 2 * L" and "r \<le> w" and "w \<le> r + L" and "0 < L" and "L < 2 ^ 30" and "w \<le> 2 * L"
proof -
  have iv: "ring_inv s" and ord: "ordered s" and small: "L < 2 ^ 30" and w2: "w \<le> 2 * L"
    using wf unfolding ring_wf_def L_def w_def by simp_all
  show "L < 2 ^ 30" "w \<le> 2 * L" by fact+
  show L0: "0 < L" unfolding L_def by (rule ring_inv_nat(1)[OF iv])
  show rw: "r \<le> w" and wr: "w \<le> r + L" using ord unfolding ordered_def r_def w_def L_def by simp_all
  have RW: "RingRead s \<le> RingWrite s" using rw unfolding r_def w_def by (simp add: word_le_nat_alt)
  have d: "unat (RingWrite s - RingRead s) = w - r" unfolding r_def w_def using RW by (simp add: unat_sub)
  have dL: "w - r \<le> L" using wr by simp
  have "RingWrite s - RingRead s \<le> RingSize s" using d dL unfolding L_def by (simp add: word_le_nat_alt)
  then have av: "unat (RingSize s - (RingWrite s - RingRead s)) = L - (w - r)"
    unfolding L_def using d by (simp add: unat_sub)
  show n2: "n \<le> 2 * L" using fit unfolding fits_def n_def b_def L_def by simp
  have "unat (dropped s b) = (if L - (w - r) < n then n - (L - (w - r)) else 0)"
    unfolding dropped_def n_def using av by (simp add: word_less_nat_alt unat_sub word_le_nat_alt)
  also have "\<dots> = e" unfolding e_def using overflow_arith[OF dL] .
  finally show e: "unat (dropped s b) = e" .
  have eb: "r + e \<le> w + n" unfolding e_def using rw by simp
  have big: "w + n < 2 ^ 32" using w2 n2 small by simp
  have "unat (RingRead s) + unat (dropped s b) < 2 ^ 32" using eb big e unfolding r_def by simp
  then have re: "unat (RingRead s + dropped s b) = r + e" unfolding r_def e[symmetric] by (rule unat_add32)
  have "unat (RingWrite s) + unat b < 2 ^ 32" using big unfolding w_def n_def .
  then have wn: "unat (RingWrite s + b) = w + n" unfolding w_def n_def by (rule unat_add32)
  show sh: "unat (rebase s b) = sh"
    unfolding rebase_def sh_def using re by (simp add: word_less_nat_alt L_def)
  show s1: "sh \<le> r + e" unfolding sh_def by simp
  have "w < L \<longrightarrow> n + w \<le> 2 * L" using fit unfolding fits_def n_def b_def L_def w_def by auto
  moreover have ee: "e = w - r + n - L" unfolding e_def ..
  ultimately have "L < r + e \<Longrightarrow> L \<le> w" using rebase_le_write[OF rw wr ee] by simp
  then show s2: "sh \<le> w" unfolding sh_def by simp
  have "rebase s b \<le> RingRead s + dropped s b" using s1 sh re by (simp add: word_le_nat_alt)
  then show "unat (RingRead s + dropped s b - rebase s b) = r + e - sh"
    using sh re by (simp add: unat_sub)
  have "rebase s b \<le> RingWrite s + b" using s2 sh wn by (simp add: word_le_nat_alt)
  then show "unat (RingWrite s + b - rebase s b) = w + n - sh"
    using sh wn by (simp add: unat_sub)
  have "rebase s b \<le> RingWrite s" using s2 sh unfolding w_def by (simp add: word_le_nat_alt)
  then show "unat (RingWrite s - rebase s b) = w - sh"
    using sh unfolding w_def by (simp add: unat_sub)
qed

lemma nth_ring_slice:
  "i < n \<Longrightarrow> ring_slice ring (r mod length ring) n ! i = ring ! ((r + i) mod length ring)"
  by (simp add: ring_slice_def mod_add_left_eq)

lemma mod_minus_rebase:
  fixes L a sh :: nat
  assumes "sh = L \<or> sh = 0" "sh \<le> a"
  shows "(a - sh + i) mod L = (a + i) mod L"
proof (cases "sh = 0")
  case True then show ?thesis by simp
next
  case False
  then have sh: "sh = L" using assms(1) by simp
  then have "(a + i) mod L = ((a - sh + i) + L) mod L" using assms(2) by simp
  also have "\<dots> = (a - sh + i) mod L" by (simp only: mod_add_self2)
  finally show ?thesis by simp
qed

lemma Append_buffered_bytes:
  assumes wf: "ring_wf s" and pay: "payload_ok s p" and fit: "fits s p"
  shows "\<exists>s'. Append s p = Inr s'
           \<and> buffered s' = drop (unat (dropped s (pkt_bytes s p)))
                                 (buffered s @ written p (pkt_bytes s p))
           \<and> unat (RingWrite s' - RingRead s')
               = unat (RingWrite s - RingRead s) + unat (pkt_bytes s p) - unat (dropped s (pkt_bytes s p))"
proof -
  define b where "b = pkt_bytes s p"
  define L where "L = unat (RingSize s)"
  define r where "r = unat (RingRead s)"
  define w where "w = unat (RingWrite s)"
  define n where "n = unat b"
  define e where "e = w - r + n - L"
  define sh where "sh = (if L < r + e then L else 0)"
  define xs where "xs = written p b"
  define ring where "ring = Ring s"
  note an = Append_nat[OF wf fit, folded b_def, folded L_def r_def w_def n_def, folded e_def, folded sh_def]
  have iv: "ring_inv s" using wf by (simp add: ring_wf_def)
  have lr: "length ring = L" unfolding ring_def L_def by (rule ring_inv_nat(2)[OF iv])
  have lx: "length xs = n" unfolding xs_def n_def b_def
    using pay by (intro length_written) (simp add: payload_ok_def)
  define s' where "s' = s\<lparr>RingRead := RingRead s + dropped s b - rebase s b,
            RingWrite := RingWrite s + b - rebase s b,
            RingTimePos := RingWrite s - rebase s b,
            RingTimeValue := pkt_time p,
            Ring := wrap_write ring (w mod L) xs\<rparr>"
  have ap: "Append s p = Inr s'"
    unfolding s'_def b_def ring_def w_def L_def xs_def by (rule Append_ok[OF iv pay fit])
  have R': "unat (RingRead s') = r + e - sh" and W': "unat (RingWrite s') = w + n - sh"
    unfolding s'_def using an(5,6) by simp_all
  have le: "r + e - sh \<le> w + n - sh" unfolding e_def using an(9) by simp
  then have "RingRead s' \<le> RingWrite s'" using R' W' by (simp add: word_le_nat_alt)
  then have d': "unat (RingWrite s' - RingRead s') = w + n - sh - (r + e - sh)"
    using R' W' by (simp add: unat_sub)
  have ee: "e \<le> w - r + n" unfolding e_def by simp
  have d'': "w + n - sh - (r + e - sh) = w - r + n - e" using an(3,4,9) ee by simp
  have d0: "unat (RingWrite s - RingRead s) = w - r"
  proof -
    have "RingRead s \<le> RingWrite s" using an(9) unfolding r_def w_def by (simp add: word_le_nat_alt)
    then show ?thesis unfolding r_def w_def by (simp add: unat_sub)
  qed
  have bs: "buffered s = ring_slice ring (r mod length ring) (w - r)"
    unfolding buffered_def ring_def[symmetric] r_def[symmetric] L_def[symmetric] d0 lr ..
  have fit': "length xs + w mod length ring \<le> 2 * length ring"
    using fit unfolding fits_def lx lr n_def b_def w_def L_def by simp
  have pos: "w mod L < length ring" using an(11) lr by simp
  have lr': "length (Ring s') = L"
    unfolding s'_def using length_wrap_write[OF pos] fit' lr by simp
  have sz: "RingSize s' = RingSize s" unfolding s'_def by simp
  have bs': "buffered s' = ring_slice (Ring s') ((r + e - sh) mod length (Ring s')) (w - r + n - e)"
    unfolding buffered_def R' sz L_def[symmetric] d' d'' lr' ..
  have Rs': "Ring s' = wrap_write ring (w mod length ring) xs" unfolding s'_def lr by simp
  have shc: "sh = L \<or> sh = 0" unfolding sh_def by simp
  have "buffered s' = drop e (buffered s @ xs)"
  proof (rule nth_equalityI)
    show "length (buffered s') = length (drop e (buffered s @ xs))"
      unfolding bs' bs by (simp add: ring_slice_def lx)
    fix i assume "i < length (buffered s')"
    then have i: "i < w - r + n - e" unfolding bs' by (simp add: ring_slice_def)
    define x where "x = r + e + i"
    have x1: "x < w + length xs" unfolding x_def lx using i an(9) by simp
    have x2: "w + length xs \<le> x + length ring" unfolding x_def lx lr e_def by simp
    have "buffered s' ! i = Ring s' ! ((r + e - sh + i) mod length (Ring s'))"
      unfolding bs' using i by (rule nth_ring_slice)
    also have "\<dots> = Ring s' ! (x mod length ring)"
      unfolding lr' lr x_def using mod_minus_rebase[OF shc an(3)] by simp
    also have "\<dots> = (if w \<le> x then xs ! (x - w) else ring ! (x mod length ring))"
      unfolding Rs' using wrap_write_window[OF _ fit' x1 x2] an(11) lr by simp
    finally have lhs: "buffered s' ! i = (if w \<le> x then xs ! (x - w) else ring ! (x mod length ring))" .
    have lb: "length (buffered s) = w - r" unfolding bs by (simp add: ring_slice_def)
    have "e \<le> length (buffered s @ xs)" using ee by (simp add: lb lx)
    then have "drop e (buffered s @ xs) ! i = (buffered s @ xs) ! (e + i)" by (rule nth_drop)
    also have "\<dots> = (if e + i < w - r then buffered s ! (e + i) else xs ! (e + i - (w - r)))"
      by (simp add: nth_append lb)
    finally have rhs: "drop e (buffered s @ xs) ! i
         = (if e + i < w - r then buffered s ! (e + i) else xs ! (e + i - (w - r)))" .
    show "buffered s' ! i = drop e (buffered s @ xs) ! i"
    proof (cases "w \<le> x")
      case True
      then have "\<not> e + i < w - r" unfolding x_def by simp
      moreover have "e + i - (w - r) = x - w" unfolding x_def using an(9) by simp
      ultimately show ?thesis using lhs rhs True by simp
    next
      case False
      then have lt: "e + i < w - r" unfolding x_def by simp
      then have "buffered s ! (e + i) = ring ! ((r + (e + i)) mod length ring)"
        unfolding bs by (rule nth_ring_slice)
      then show ?thesis using lhs rhs False lt unfolding x_def by (simp add: add.assoc)
    qed
  qed
  moreover have "unat (RingWrite s' - RingRead s') = unat (RingWrite s - RingRead s) + unat b - unat (dropped s b)"
    using d' d'' d0 an(1) by (simp add: n_def)
  ultimately show ?thesis using ap unfolding an(1)[symmetric] xs_def b_def by blast
qed


lemma ring_wf_D:
  assumes "ring_wf s"
  shows "ring_inv s" "ordered s" "unat (RingSize s) < 2 ^ 30" "unat (RingWrite s) \<le> 2 * unat (RingSize s)"
    "RingRead s \<le> RingWrite s"
  using assms by (simp_all add: ring_wf_def ordered_iff)







subsection \<open>States without wrapped counters, and sequences of appends\<close>

lemma small_fits:
  assumes "ring_inv s" "unat (pkt_bytes s p) \<le> unat (RingSize s)"
  shows "fits s p"
proof -
  have "unat (RingWrite s) mod unat (RingSize s) < unat (RingSize s)"
    using ring_inv_nat(1)[OF assms(1)] by simp
  then show ?thesis using assms(2) unfolding fits_def by simp
qed

lemma write_bound:
  fixes L r w n e sh :: nat
  assumes "n \<le> L" "w \<le> 2 * L" "r \<le> w" "w \<le> r + L" "e = w - r + n - L"
    "sh = (if L < r + e then L else 0)"
  shows "w + n - sh \<le> 2 * L"
  using assms by (auto split: if_splits)

lemma Append_ring_wf:
  assumes wf: "ring_wf s" and pay: "payload_ok s p"
    and small: "unat (pkt_bytes s p) \<le> unat (RingSize s)"
  shows "\<exists>s'. Append s p = Inr s' \<and> ring_wf s'"
proof -
  note D = ring_wf_D[OF wf]
  have fit: "fits s p" using small_fits[OF D(1) small] .
  from Append_ok[OF D(1) pay fit] obtain s' where ap: "Append s p = Inr s'"
    and W': "RingWrite s' = RingWrite s + pkt_bytes s p - rebase s (pkt_bytes s p)" by simp
  have st: "step s (CallAppend p) = Inr s'" using ap by simp
  have sz: "RingSize s' = RingSize s" using step_size[OF st] .
  have iv': "ring_inv s'" using step_ring_inv[OF st D(1)] .
  have "unat (RingSize s) < 2 ^ 31" using D(3) by simp
  then have ord': "ordered s'" using step_ordered[OF st D(2)] by simp
  note an = Append_nat[OF wf fit]
  have "unat (RingWrite s') \<le> 2 * unat (RingSize s)"
    unfolding W' an(6) using write_bound[OF small an(13,9,10) refl refl] .
  then show ?thesis using ap iv' ord' sz D(3) by (simp add: ring_wf_def)
qed

lemma inside_ring_wf:
  assumes "inside s s'" "ring_wf s"
  shows "ring_wf s'"
proof -
  note D = ring_wf_D[OF assms(2)]
  have "ring_inv s'"
    using inside_fields[OF assms(1)] inside_diff[OF assms(1)] D(1) by (simp add: ring_inv_def)
  then show ?thesis
    using inside_ordered(1)[OF assms(1) D(2)] inside_fields[OF assms(1)] D(3,4)
    by (simp add: ring_wf_def)
qed

lemma Negotiate_ring_wf:
  assumes "Negotiate fmt g = Inr s" "RingSize s \<noteq> 0" "unat (RingSize s) < 2 ^ 30"
  shows "ring_wf s"
  using Negotiate_ring_inv[OF assms(1,2)] Negotiate_Inr(1,2)[OF assms(1)] assms(3)
  by (simp add: ring_wf_def ordered_def)

lemma run_ring_wf:
  assumes "run s cs = Inr s'" "ring_wf s"
    "\<forall>p. CallAppend p \<in> set cs \<longrightarrow> unat (samples p * BytesPerSample s) \<le> unat (RingSize s)"
  shows "ring_wf s'"
  using assms
proof (induction cs arbitrary: s)
  case Nil
  then show ?case by simp
next
  case (Cons c cs)
  then obtain s1 where 1: "step s c = Inr s1" and 2: "run s1 cs = Inr s'"
    by (auto split: sum.splits)
  have wf1: "ring_wf s1 \<and> BytesPerSample s1 = BytesPerSample s"
  proof (cases "\<exists>p. c = CallAppend p")
    case True
    then obtain p where c: "c = CallAppend p" by blast
    then have ap: "Append s p = Inr s1" using 1 by simp
    have small: "unat (pkt_bytes s p) \<le> unat (RingSize s)"
      using Cons.prems(3) c by (simp add: pkt_bytes_def)
    note D = ring_wf_D[OF Cons.prems(2)]
    have pay: "payload_ok s p"
    proof (rule ccontr)
      assume n: "\<not> payload_ok s p"
      then have ns: "\<not> silent p" and short: "length (data p) < unat (pkt_bytes s p)"
        by (simp_all add: payload_ok_def)
      from Append_Inr(2)[OF ap] obtain r where
        r: "Append_copy (Ring s) (RingSize s) (RingWrite s mod RingSize s) (pkt_bytes s p) p = Inr r"
        by blast
      let ?c = "Min_uint (pkt_bytes s p) (RingSize s - RingWrite s mod RingSize s)"
      have "unat ?c \<le> length (data p)"
        "unat (pkt_bytes s p - ?c) \<le> length (drop (unat ?c) (data p))"
        using r ns unfolding Append_copy_def Let_def silent_def memcpy_to_ring_def
        by (auto split: if_splits sum.splits)
      then have "unat ?c + unat (pkt_bytes s p - ?c) \<le> length (data p)" by simp
      moreover have "unat ?c + unat (pkt_bytes s p - ?c) = unat (pkt_bytes s p)"
        by (simp add: Min_uint_sub Min_uint_unat)
      ultimately show False using short by simp
    qed
    from Append_ring_wf[OF Cons.prems(2) pay small] ap Append_Inr(2)[OF ap]
    show ?thesis by auto
  next
    case False
    then have i: "inside s s1" using 1 step_consumer_inside by blast
    from inside_ring_wf[OF i Cons.prems(2)] inside_fields[OF i] show ?thesis by simp
  qed
  have sz: "RingSize s1 = RingSize s" using step_size[OF 1] .
  have "\<forall>p. CallAppend p \<in> set cs \<longrightarrow> unat (samples p * BytesPerSample s1) \<le> unat (RingSize s1)"
    using Cons.prems(3) wf1 sz by simp
  from Cons.IH[OF 2 _ this] wf1 show ?case by simp
qed

lemma newest_newest_append: "newest n (newest n xs @ ys) = newest n (xs @ ys)"
proof (cases "length xs \<le> n")
  case True
  then show ?thesis by (simp add: newest_def)
next
  case False
  then have l: "length (newest n xs) = n" by (simp add: newest_def)
  have "newest n (newest n xs @ ys) = drop (length ys) (drop (length xs - n) xs @ ys)"
    using l by (simp add: newest_def)
  also have "\<dots> = drop (length ys) (drop (length xs - n) (xs @ ys))" by simp
  also have "\<dots> = drop (length xs - n + length ys) (xs @ ys)" by (simp only: drop_drop add.commute)
  also have "length xs - n + length ys = length (xs @ ys) - n" using False by simp
  finally show ?thesis by (simp add: newest_def)
qed

lemma Append_newest:
  assumes wf: "ring_wf s" and pay: "payload_ok s p"
    and small: "unat (pkt_bytes s p) \<le> unat (RingSize s)"
  shows "\<exists>s'. Append s p = Inr s' \<and> ring_wf s' \<and> RingSize s' = RingSize s
           \<and> BytesPerSample s' = BytesPerSample s
           \<and> buffered s' = newest (unat (RingSize s)) (buffered s @ written p (pkt_bytes s p))"
proof -
  note D = ring_wf_D[OF wf]
  have fit: "fits s p" using small_fits[OF D(1) small] .
  from Append_buffered_bytes[OF wf pay fit] obtain s' where
    ap: "Append s p = Inr s'"
    and bf: "buffered s' = drop (unat (dropped s (pkt_bytes s p))) (buffered s @ written p (pkt_bytes s p))"
    by blast
  have wf': "ring_wf s'" using Append_ring_wf[OF wf pay small] ap by simp
  have f: "RingSize s' = RingSize s" "BytesPerSample s' = BytesPerSample s"
    using Append_Inr(2)[OF ap] by auto
  have lw: "length (written p (pkt_bytes s p)) = unat (pkt_bytes s p)"
    using pay by (intro length_written) (simp add: payload_ok_def)
  have lb: "length (buffered s) = unat (RingWrite s) - unat (RingRead s)"
    using D(5) by (simp add: buffered_def ring_slice_def unat_sub)
  have "unat (dropped s (pkt_bytes s p)) = length (buffered s @ written p (pkt_bytes s p)) - unat (RingSize s)"
    using Append_nat(1)[OF wf fit] lw lb by simp
  then show ?thesis using ap wf' f bf by (simp add: newest_def)
qed

lemma appends_keep_newest:
  assumes "ring_wf s" "small_packets s ps"
  shows "\<exists>s'. run s (map CallAppend ps) = Inr s' \<and> ring_wf s'
           \<and> buffered s' = newest (unat (RingSize s))
                              (buffered s @ concat (map (\<lambda>p. written p (pkt_bytes s p)) ps))"
  using assms
proof (induction ps arbitrary: s)
  case Nil
  have "length (buffered s) \<le> unat (RingSize s)"
    using ring_inv_nat(3)[OF ring_wf_D(1)[OF Nil(1)]] by (simp add: buffered_def ring_slice_def)
  then show ?case using Nil(1) by (simp add: newest_def)
next
  case (Cons p ps)
  have pay: "payload_ok s p" and small: "unat (pkt_bytes s p) \<le> unat (RingSize s)"
    using Cons.prems(2) by (simp_all add: small_packets_def)
  from Append_newest[OF Cons.prems(1) pay small] obtain s1 where
    ap: "Append s p = Inr s1" and wf1: "ring_wf s1" and sz: "RingSize s1 = RingSize s"
    and bs: "BytesPerSample s1 = BytesPerSample s"
    and bf: "buffered s1 = newest (unat (RingSize s)) (buffered s @ written p (pkt_bytes s p))"
    by blast
  have same: "pkt_bytes s1 q = pkt_bytes s q" "payload_ok s1 q = payload_ok s q" for q
    using bs by (simp_all add: pkt_bytes_def payload_ok_def)
  have sp: "small_packets s1 ps"
    using Cons.prems(2) unfolding small_packets_def same sz by simp
  from Cons.IH[OF wf1 sp] obtain s' where
    r: "run s1 (map CallAppend ps) = Inr s'" and wf': "ring_wf s'"
    and bf': "buffered s' = newest (unat (RingSize s1))
                              (buffered s1 @ concat (map (\<lambda>p. written p (pkt_bytes s1 p)) ps))"
    by blast
  have "buffered s' = newest (unat (RingSize s))
          (buffered s @ concat (map (\<lambda>p. written p (pkt_bytes s p)) (p # ps)))"
    unfolding bf' sz same bf newest_newest_append by simp
  then show ?case using ap r wf' by auto
qed

subsection \<open>Silent packets\<close>





subsection \<open>Time stamps of successive Reads\<close>

















subsection \<open>JumpToTime\<close>

lemma studio_reached:
  "Negotiate float32_format (\<lambda>_. 0) = Inr (studio\<lparr>RingWrite := 0\<rparr>)
   \<and> Append (studio\<lparr>RingWrite := 0\<rparr>) (silent_packet 480 0) = Inr studio"
proof -
  have m: "map (\<lambda>_. 0 :: uint8) [0 ..< 384000] = replicate 384000 0"
    by (simp add: map_replicate_trivial)
  have r: "replicate 3840 (0 :: uint8) @ replicate 380160 0 = replicate 384000 0"
    by (simp add: replicate_add[symmetric])
  show ?thesis
    by (simp add: float32_format_def studio_def silent_packet_def model_defs double_defs m r)
qed

text \<open>
  Claim C6 fails in the code. The session is at 48 kHz with 8 bytes per sample frame, the
  anchor is at the offset 0 with the time 0, and 3840 bytes are buffered. For the target
  time 6000 s the code computes 288000000 samples (each operation of \<open>double\<close> is exact
  here) and multiplies by 8 in 32 bits: the product 2304000000 is beyond the range of
  \<open>int\<close>, \<open>destpos\<close> is \<open>-1990967296\<close>, and the clamp leaves the read cursor at 0. The
  target offset of the claim is 2304000000, later than the newest byte, and its clamp into
  \<open>[0, 3840]\<close> is the write cursor 3840.
\<close>

theorem JumpToTime_overflow:
  "JumpToTime studio 6000 = Inr studio
   \<and> RingRead studio = 0 \<and> RingWrite studio = 3840
   \<and> dmul (dsub 6000 (RingTimeValue studio)) (real (unat (SamplesPerSec studio))) = 288000000
   \<and> sint (RingTimePos studio + 288000000 * BytesPerSample studio) = - 1990967296
   \<and> jump_target studio 6000 = 2304000000
   \<and> Clamp (jump_target studio 6000) (int (unat (RingRead studio))) (int (unat (RingWrite studio)))
       = 3840"
  by (simp add: studio_def JumpToTime_def jump_target_def c_round_def Clamp_def Let_def double_defs)

end
